theory Spec2Isabelle
  imports Main "HOL-Library.Multiset" "HOL-Library.Log_Nat" "HOL-Library.Code_Target_Numeral"
begin

unbundle bit_operations_syntax

section \<open>Platform and external collaborators\<close>

text \<open>
  \<^verbatim>\<open>Discretization.cpp\<close> uses \<^verbatim>\<open>size_t\<close>, \<^verbatim>\<open>ptrdiff_t\<close>, \<^verbatim>\<open>IntEbmType\<close> and
  \<^verbatim>\<open>FloatEbmType\<close>, whose declarations live in headers outside the file.
  What the file's behaviour depends on is taken as a parameter:
  the width of \<^verbatim>\<open>size_t\<close> (and \<^verbatim>\<open>ptrdiff_t\<close>) in bits, the number of significand
  bits of \<^verbatim>\<open>FloatEbmType\<close> (53 for an IEEE double), and the constant
  \<^verbatim>\<open>sizeof(SplittingRange) + sizeof(SplittingRange *)\<close>.
  Values of \<^verbatim>\<open>IntEbmType\<close> are mathematical integers: the file only compares
  them and converts them to \<^verbatim>\<open>size_t\<close>, and never computes with them.
  Values of \<^verbatim>\<open>size_t\<close> are natural numbers below \<open>2 ^ size_bits\<close>; pointers into
  a buffer are indices into the list that models the buffer.
\<close>

record platform =
  size_bits :: nat
  float_digits :: nat
  cBytesCombined :: nat

text \<open>
  Modelled from the spec: \<^verbatim>\<open>IsNumberConvertable<size_t, IntEbmType>\<close> (EbmInternal.h):
  "a count parameter does not fit the platform's addressable size type".
\<close>

definition IsNumberConvertable :: "platform \<Rightarrow> int \<Rightarrow> bool" where
  "IsNumberConvertable pf x = (0 \<le> x \<and> x < 2 ^ size_bits pf)"

text \<open>\<^verbatim>\<open>static_cast<size_t>\<close> of an \<^verbatim>\<open>IntEbmType\<close>: reduction modulo \<open>2 ^ size_bits\<close>.\<close>

definition static_cast_size_t :: "platform \<Rightarrow> int \<Rightarrow> nat" where
  "static_cast_size_t pf x = nat (x mod 2 ^ size_bits pf)"

text \<open>\<^verbatim>\<open>static_cast<ptrdiff_t>\<close> of a \<^verbatim>\<open>size_t\<close>: the two's complement reading.\<close>

definition static_cast_ptrdiff_t :: "platform \<Rightarrow> nat \<Rightarrow> int" where
  "static_cast_ptrdiff_t pf n =
     (if n < 2 ^ (size_bits pf - 1) then int n else int n - 2 ^ size_bits pf)"

text \<open>
  Modelled from the spec: \<^verbatim>\<open>IsMultiplyError\<close> (EbmInternal.h): "arithmetic overflow when
  computing the allocation size for the range table".
\<close>

definition IsMultiplyError :: "platform \<Rightarrow> nat \<Rightarrow> nat \<Rightarrow> bool" where
  "IsMultiplyError pf a b = (2 ^ size_bits pf \<le> a * b)"

text \<open>
  \<^verbatim>\<open>EBM_FALSE\<close> and \<^verbatim>\<open>EBM_TRUE\<close> (ebm_native.h) are the \<^verbatim>\<open>IntEbmType\<close> values 0 and 1.
\<close>

definition EBM_FALSE :: int where
  "EBM_FALSE = 0"

definition EBM_TRUE :: int where
  "EBM_TRUE = 1"

section \<open>Feature values\<close>

text \<open>
  A feature value is either NaN or a number. The file only tests feature values with
  \<^verbatim>\<open>std::isnan\<close> and compares them; the numbers are any linear order (two doubles
  that compare equal are the same number here). Every comparison with a NaN operand
  is false, except \<^verbatim>\<open>!=\<close>, which is true.
\<close>

datatype 'a FloatEbmType = NaN | Num 'a

fun isnan :: "'a FloatEbmType \<Rightarrow> bool" where
  "isnan NaN = True"
| "isnan (Num x) = False"

fun float_le :: "'a::linorder FloatEbmType \<Rightarrow> 'a FloatEbmType \<Rightarrow> bool" where
  "float_le (Num x) (Num y) = (x \<le> y)"
| "float_le a b = False"

fun float_less :: "'a::linorder FloatEbmType \<Rightarrow> 'a FloatEbmType \<Rightarrow> bool" where
  "float_less (Num x) (Num y) = (x < y)"
| "float_less a b = False"

fun float_ne :: "'a FloatEbmType \<Rightarrow> 'a FloatEbmType \<Rightarrow> bool" where
  "float_ne (Num x) (Num y) = (x \<noteq> y)"
| "float_ne a b = True"

section \<open>RemoveMissingValues\<close>

text \<open>
  The buffer is a list, \<^verbatim>\<open>aValues\<close> is index 0 and \<^verbatim>\<open>pValuesEnd\<close> an index. The
  result is the buffer after the call and the returned \<^verbatim>\<open>pCopyTo\<close>; \<open>None\<close> is a read
  or write outside the buffer (undefined in C++).

  \<open>RemoveMissingValues_skip_val\<close> is the inner \<^verbatim>\<open>do ... while\<close> entered at the label
  \<^verbatim>\<open>skip_val\<close>: advance \<^verbatim>\<open>pCopyFrom\<close>, test the loop condition, and run the body from its
  start.
\<close>

function RemoveMissingValues_skip_val ::
  "'a FloatEbmType list \<Rightarrow> nat \<Rightarrow> nat \<Rightarrow> nat \<Rightarrow> ('a FloatEbmType list \<times> nat) option" where
  "RemoveMissingValues_skip_val buf pCopyFrom pCopyTo pCopyFromEnd =
     (let pCopyFrom' = pCopyFrom + 1 in
      if pCopyFromEnd \<noteq> pCopyFrom' then
        (if pCopyFrom' < length buf then
           (let val = buf ! pCopyFrom' in
            if \<not> isnan val then
              (if pCopyTo < length buf then
                 RemoveMissingValues_skip_val (buf[pCopyTo := val]) pCopyFrom' (pCopyTo + 1)
                   pCopyFromEnd
               else None)
            else RemoveMissingValues_skip_val buf pCopyFrom' pCopyTo pCopyFromEnd)
         else None)
      else Some (buf, pCopyTo))"
  by pat_completeness auto
termination
  by (relation "measure (\<lambda>(buf, pCopyFrom, pCopyTo, pCopyFromEnd). length buf - pCopyFrom)") auto

declare RemoveMissingValues_skip_val.simps [simp del]

function RemoveMissingValues_scan ::
  "'a FloatEbmType list \<Rightarrow> nat \<Rightarrow> nat \<Rightarrow> ('a FloatEbmType list \<times> nat) option" where
  "RemoveMissingValues_scan buf pCopyFrom pValuesEnd =
     (if pCopyFrom < length buf then
        (let val = buf ! pCopyFrom in
         if isnan val then RemoveMissingValues_skip_val buf pCopyFrom pCopyFrom pValuesEnd
         else
           (let pCopyFrom' = pCopyFrom + 1 in
            if pValuesEnd \<noteq> pCopyFrom' then RemoveMissingValues_scan buf pCopyFrom' pValuesEnd
            else Some (buf, pValuesEnd)))
      else None)"
  by pat_completeness auto
termination
  by (relation "measure (\<lambda>(buf, pCopyFrom, pValuesEnd). length buf - pCopyFrom)") auto

declare RemoveMissingValues_scan.simps [simp del]

definition RemoveMissingValues ::
  "'a FloatEbmType list \<Rightarrow> nat \<Rightarrow> ('a FloatEbmType list \<times> nat) option" where
  "RemoveMissingValues buf pValuesEnd = RemoveMissingValues_scan buf 0 pValuesEnd"

section \<open>GetCountBinsMax\<close>

text \<open>\<^verbatim>\<open>--x\<close> on a \<^verbatim>\<open>size_t\<close>.\<close>

definition size_t_decrement :: "platform \<Rightarrow> nat \<Rightarrow> nat" where
  "size_t_decrement pf x = (if x = 0 then 2 ^ size_bits pf - 1 else x - 1)"

text \<open>
  The \<^verbatim>\<open>do ... while(0x8 != cBits)\<close> loop of \<^verbatim>\<open>GetCountBinsMax\<close>. From an arbitrary
  \<^verbatim>\<open>cBits\<close> the loop need not end (\<^verbatim>\<open>cBits\<close> can reach 0 without passing 8), so
  not returning is the value \<open>None\<close>.
\<close>

partial_function (option) GetCountBinsMax_loop :: "platform \<Rightarrow> nat \<Rightarrow> nat \<Rightarrow> nat option" where
  "GetCountBinsMax_loop pf cBits cMaximumBins =
     (if cBits = cMaximumBins then Some (size_t_decrement pf cMaximumBins)
      else
        (let cBits' = cBits div 2 in
         if 8 \<noteq> cBits' then GetCountBinsMax_loop pf cBits' cMaximumBins
         else Some cMaximumBins))"

declare GetCountBinsMax_loop.simps [code]

definition GetCountBinsMax :: "platform \<Rightarrow> bool \<Rightarrow> int \<Rightarrow> nat option" where
  "GetCountBinsMax pf bMissing countMaximumBins =
     (let cMaximumBins = static_cast_size_t pf countMaximumBins in
      if bMissing then
        (let cBits = ((2 ^ size_bits pf - 1) div 2 + 1) mod 2 ^ size_bits pf in
         GetCountBinsMax_loop pf cBits cMaximumBins)
      else Some cMaximumBins)"

section \<open>GetAvgLength\<close>

text \<open>
  \<^verbatim>\<open>GetAvgLength\<close> computes with \<^verbatim>\<open>FloatEbmType\<close> values: it converts two counts,
  divides them, takes \<^verbatim>\<open>std::ceil\<close>, and converts back. All values are non-negative,
  and at most \<open>2 ^ size_bits\<close>, far inside the exponent range of the format. Such a
  value is a pair \<open>(m, e)\<close> standing for \<open>m * 2 ^ e\<close>; every operation computes its
  exact result and rounds it to \<open>float_digits\<close> significand bits, to nearest, ties to
  even (the IEEE default).
\<close>

type_synonym float_value = "nat \<times> int"

text \<open>The integer nearest to \<open>a / b\<close>, ties to even.\<close>

definition round_nearest_even :: "nat \<Rightarrow> nat \<Rightarrow> nat" where
  "round_nearest_even a b =
     (let q = a div b; r = a mod b in
      if 2 * r < b then q
      else if b < 2 * r then q + 1
      else if even q then q else q + 1)"

text \<open>
  The float nearest to \<open>a / b\<close>, for positive \<open>a\<close> and \<open>b\<close>: scale the quotient by the
  power of two \<open>2 ^ k\<close> that brings it into \<open>[2 ^ (p - 1), 2 ^ p)\<close>, and round it to an
  integer. With \<open>d\<close> the difference of the bit lengths, the quotient lies between
  \<open>2 ^ (d - 1)\<close> and \<open>2 ^ (d + 1)\<close>.
\<close>

definition float_round :: "platform \<Rightarrow> nat \<Rightarrow> nat \<Rightarrow> float_value" where
  "float_round pf a b =
     (let p = int (float_digits pf);
          d = bitlen (int a) - bitlen (int b);
          below = (if 0 \<le> d then a < b * 2 ^ nat d else a * 2 ^ nat (- d) < b);
          k = (if below then p - d else p - 1 - d)
      in if 0 \<le> k then (round_nearest_even (a * 2 ^ nat k) b, - k)
         else (round_nearest_even a (b * 2 ^ nat (- k)), - k))"

text \<open>\<^verbatim>\<open>static_cast<FloatEbmType>\<close> of a \<^verbatim>\<open>size_t\<close>.\<close>

definition float_of_size_t :: "platform \<Rightarrow> nat \<Rightarrow> float_value" where
  "float_of_size_t pf n = (if n = 0 then (0, 0) else float_round pf n 1)"

text \<open>
  Division. A zero divisor gives an infinity or a NaN, which \<^verbatim>\<open>GetAvgLength\<close> then
  converts to \<^verbatim>\<open>size_t\<close>: undefined, \<open>None\<close>.
\<close>

definition float_divide :: "platform \<Rightarrow> float_value \<Rightarrow> float_value \<Rightarrow> float_value option" where
  "float_divide pf x y =
     (if fst y = 0 then None
      else if fst x = 0 then Some (0, 0)
      else (let (m, e) = float_round pf (fst x) (fst y) in Some (m, e + snd x - snd y)))"

text \<open>\<^verbatim>\<open>std::ceil\<close>: exact; the result is an integer.\<close>

definition float_ceil :: "float_value \<Rightarrow> float_value" where
  "float_ceil x =
     (if 0 \<le> snd x then x
      else ((fst x + 2 ^ nat (- snd x) - 1) div 2 ^ nat (- snd x), 0))"

text \<open>\<^verbatim>\<open>static_cast<size_t>\<close> of a float: truncation; undefined when out of range.\<close>

definition size_t_of_float :: "platform \<Rightarrow> float_value \<Rightarrow> nat option" where
  "size_t_of_float pf x =
     (let n = (if 0 \<le> snd x then fst x * 2 ^ nat (snd x) else fst x div 2 ^ nat (- snd x))
      in if n < 2 ^ size_bits pf then Some n else None)"

definition float_value_less :: "float_value \<Rightarrow> float_value \<Rightarrow> bool" where
  "float_value_less x y =
     (let e = min (snd x) (snd y)
      in fst x * 2 ^ nat (snd x - e) < fst y * 2 ^ nat (snd y - e))"

text \<open>
  The \<^verbatim>\<open>while\<close> loop of \<^verbatim>\<open>GetAvgLength\<close>; \<^verbatim>\<open>++avgLength\<close> wraps around. \<open>None\<close> is a
  loop that never ends.
\<close>

partial_function (option) GetAvgLength_loop ::
  "platform \<Rightarrow> nat \<Rightarrow> float_value \<Rightarrow> nat option" where
  "GetAvgLength_loop pf avgLength avgLengthFloat =
     (if float_value_less (float_of_size_t pf avgLength) avgLengthFloat then
        GetAvgLength_loop pf ((avgLength + 1) mod 2 ^ size_bits pf) avgLengthFloat
      else Some avgLength)"

declare GetAvgLength_loop.simps [code]

definition GetAvgLength :: "platform \<Rightarrow> nat \<Rightarrow> nat \<Rightarrow> nat \<Rightarrow> nat option" where
  "GetAvgLength pf cInstances cMaximumBins cMinimumInstancesPerBin =
     (case float_divide pf (float_of_size_t pf cInstances) (float_of_size_t pf cMaximumBins) of
        None \<Rightarrow> None
      | Some avgFloat \<Rightarrow>
          (let avgLengthFloat = float_ceil avgFloat in
           case size_t_of_float pf avgLengthFloat of
             None \<Rightarrow> None
           | Some avgLength0 \<Rightarrow>
               (case GetAvgLength_loop pf avgLength0 avgLengthFloat of
                  None \<Rightarrow> None
                | Some avgLength \<Rightarrow>
                    Some (if avgLength < cMinimumInstancesPerBin then cMinimumInstancesPerBin
                          else avgLength))))"

text \<open>
  What the pairs and the rounding mean, for the proofs: the real number a pair stands
  for, rounding a real number to the nearest integer with ties to even, and \<open>r\<close> being
  \<open>x\<close> rounded to \<open>p\<close> significand bits.
\<close>

definition float_real :: "float_value \<Rightarrow> real" where
  "float_real x = real (fst x) * 2 powi (snd x)"

definition round_real :: "real \<Rightarrow> int" where
  "round_real y =
     (if y - of_int \<lfloor>y\<rfloor> < 1 / 2 then \<lfloor>y\<rfloor>
      else if 1 / 2 < y - of_int \<lfloor>y\<rfloor> then \<lfloor>y\<rfloor> + 1
      else if even \<lfloor>y\<rfloor> then \<lfloor>y\<rfloor> else \<lfloor>y\<rfloor> + 1)"

definition rounds_to :: "nat \<Rightarrow> real \<Rightarrow> real \<Rightarrow> bool" where
  "rounds_to p x r =
     (\<exists>K :: int. 2 ^ (p - 1) \<le> x * 2 powi K \<and> x * 2 powi K < 2 ^ p
        \<and> r = of_int (round_real (x * 2 powi K)) * 2 powi (- K))"

section \<open>GenerateQuantileCutPoints\<close>

text \<open>
  \<^verbatim>\<open>std::sort\<close> with a comparison \<open>precedes\<close>: insertion sort, each element going in front of
  the first one that is not before it. \<^verbatim>\<open>std::sort\<close> leaves the order of elements open
  of which neither is before the other; where no two such elements differ, every
  sorting algorithm gives this result.
\<close>

fun std_sort_insert :: "('a \<Rightarrow> 'a \<Rightarrow> bool) \<Rightarrow> 'a \<Rightarrow> 'a list \<Rightarrow> 'a list" where
  "std_sort_insert precedes x [] = [x]"
| "std_sort_insert precedes x (y # ys) =
     (if precedes y x then y # std_sort_insert precedes x ys else x # y # ys)"

definition std_sort_by :: "('a \<Rightarrow> 'a \<Rightarrow> bool) \<Rightarrow> 'a list \<Rightarrow> 'a list" where
  "std_sort_by precedes xs = foldr (std_sort_insert precedes) xs []"

text \<open>
  \<^verbatim>\<open>std::sort\<close> on a range of feature values, with \<^verbatim>\<open>operator<\<close>. Numbers that compare
  equal are the same number here.
\<close>

definition std_sort :: "'a::linorder FloatEbmType list \<Rightarrow> 'a FloatEbmType list" where
  "std_sort xs = std_sort_by float_less xs"

definition k_MiddleSplittingRange :: nat where
  "k_MiddleSplittingRange = 0"

definition k_FirstSplittingRange :: nat where
  "k_FirstSplittingRange = 1"

definition k_LastSplittingRange :: nat where
  "k_LastSplittingRange = 2"

text \<open>
  \<^verbatim>\<open>m_pSplittableValuesStart\<close> is an index into the value buffer.
\<close>

record SplittingRange =
  m_pSplittableValuesStart :: nat
  m_cSplittableItems :: nat
  m_cUnsplittablePriorItems :: nat
  m_cUnsplittableSubsequentItems :: nat
  m_cUnsplittableEitherSideMax :: nat
  m_cUnsplittableEitherSideMin :: nat
  m_cSplitsAssigned :: nat
  m_flags :: nat

text \<open>
  The memory a call of \<^verbatim>\<open>GenerateQuantileCutPoints\<close> can write: the value buffer, the
  cut point buffer, and the four locations \<^verbatim>\<open>*countCutPoints\<close>, \<^verbatim>\<open>*isMissing\<close>,
  \<^verbatim>\<open>*minValue\<close> and \<^verbatim>\<open>*maxValue\<close>. A call takes the memory as the caller left it
  and returns it as the call leaves it.
\<close>

record 'a memory =
  mem_singleFeatureValues :: "'a FloatEbmType list"
  mem_cutPointsLowerBoundInclusive :: "'a FloatEbmType list"
  mem_countCutPoints :: int
  mem_isMissing :: int
  mem_minValue :: "'a FloatEbmType"
  mem_maxValue :: "'a FloatEbmType"

text \<open>
  What the call cannot decide itself: whether the constructor of \<^verbatim>\<open>RandomStream\<close>
  (RandomStream.h) throws, and otherwise what \<^verbatim>\<open>IsSuccess()\<close> says, for a seed; and
  whether \<^verbatim>\<open>malloc\<close> of a number of bytes returns memory.
\<close>

datatype RandomStream_construction = Constructor_throws | IsSuccess_false | IsSuccess_true

record environment =
  RandomStream_constructor :: "int \<Rightarrow> RandomStream_construction"
  malloc_succeeds :: "nat \<Rightarrow> bool"

text \<open>
  The first scan (lines 316 to 335), which counts the splitting ranges. It returns
  \<^verbatim>\<open>pSplittableValuesStart\<close> and \<^verbatim>\<open>cSplittingRanges\<close>; \<open>None\<close> is a read outside the
  buffer.
\<close>

function count_splitting_ranges ::
  "'a FloatEbmType list \<Rightarrow> nat \<Rightarrow> nat \<Rightarrow> nat \<Rightarrow> 'a FloatEbmType \<Rightarrow> nat \<Rightarrow> nat \<Rightarrow> nat \<Rightarrow> nat
   \<Rightarrow> (nat \<times> nat) option" where
  "count_splitting_ranges buf pValuesEnd avgLength cMinimumInstancesPerBin
     rangeValue pSplittableValuesStart pStartEqualRange pScan cSplittingRanges =
     (if pValuesEnd \<noteq> pScan then
        (if pScan < length buf then
           (let val = buf ! pScan in
            if float_ne val rangeValue then
              (let cEqualRangeItems = pScan - pStartEqualRange in
               if avgLength \<le> cEqualRangeItems then
                 count_splitting_ranges buf pValuesEnd avgLength cMinimumInstancesPerBin
                   val pScan pScan (pScan + 1)
                   (if 0 \<noteq> pSplittableValuesStart
                       \<or> cMinimumInstancesPerBin \<le> pStartEqualRange - pSplittableValuesStart
                    then cSplittingRanges + 1 else cSplittingRanges)
               else
                 count_splitting_ranges buf pValuesEnd avgLength cMinimumInstancesPerBin
                   val pSplittableValuesStart pScan (pScan + 1) cSplittingRanges)
            else
              count_splitting_ranges buf pValuesEnd avgLength cMinimumInstancesPerBin
                rangeValue pSplittableValuesStart pStartEqualRange (pScan + 1) cSplittingRanges)
         else None)
      else Some (pSplittableValuesStart, cSplittingRanges))"
  by pat_completeness auto
termination
  by (relation "measure (\<lambda>(buf, pValuesEnd, avgLength, cMinimumInstancesPerBin,
        rangeValue, pSplittableValuesStart, pStartEqualRange, pScan, cSplittingRanges).
        length buf - pScan)") auto

declare count_splitting_ranges.simps [simp del]

text \<open>
  The loop of lines 348 to 353: \<open>Some True\<close> is the \<^verbatim>\<open>goto continue_working\<close>, \<open>Some False\<close>
  the loop running to its end.
\<close>

function check_for_split_point ::
  "'a FloatEbmType list \<Rightarrow> 'a FloatEbmType \<Rightarrow> nat \<Rightarrow> nat \<Rightarrow> bool option" where
  "check_for_split_point buf checkValue pCheckForSplitPoint pCheckForSplitPointLast =
     (if pCheckForSplitPoint \<le> pCheckForSplitPointLast then
        (if pCheckForSplitPoint < length buf then
           (if float_ne checkValue (buf ! pCheckForSplitPoint) then Some True
            else check_for_split_point buf checkValue (pCheckForSplitPoint + 1)
                   pCheckForSplitPointLast)
         else None)
      else Some False)"
  by pat_completeness auto
termination
  by (relation "measure (\<lambda>(buf, checkValue, pCheckForSplitPoint, pCheckForSplitPointLast).
        length buf - pCheckForSplitPoint)") auto

declare check_for_split_point.simps [simp del]

text \<open>
  The assignments to \<^verbatim>\<open>*pSplittingRange\<close>, which the source repeats three times (lines
  405 to 414, 440 to 449 and 469 to 478).
\<close>

definition new_SplittingRange :: "nat \<Rightarrow> nat \<Rightarrow> nat \<Rightarrow> nat \<Rightarrow> SplittingRange" where
  "new_SplittingRange pSplittableValuesStart cSplittable cEqualRangeItemsPrior cEqualRangeItems =
     \<lparr>m_pSplittableValuesStart = pSplittableValuesStart,
      m_cSplittableItems = cSplittable,
      m_cUnsplittablePriorItems = cEqualRangeItemsPrior,
      m_cUnsplittableSubsequentItems = cEqualRangeItems,
      m_cUnsplittableEitherSideMax = max cEqualRangeItemsPrior cEqualRangeItems,
      m_cUnsplittableEitherSideMin = min cEqualRangeItemsPrior cEqualRangeItems,
      m_cSplitsAssigned = 1,
      m_flags = (if 0 = pSplittableValuesStart then k_FirstSplittingRange
                 else k_MiddleSplittingRange)\<rparr>"

text \<open>
  The table \<^verbatim>\<open>aSplittingRange\<close> is the list of the records written so far, and
  \<^verbatim>\<open>pSplittingRange\<close> points behind its last element. The table has room for
  \<^verbatim>\<open>cSplittingRanges\<close> records; a write behind them is \<open>None\<close>.
\<close>

definition write_SplittingRange ::
  "nat \<Rightarrow> SplittingRange list \<Rightarrow> SplittingRange \<Rightarrow> SplittingRange list option" where
  "write_SplittingRange cSplittingRanges aSplittingRange r =
     (if length aSplittingRange < cSplittingRanges then Some (aSplittingRange @ [r]) else None)"

text \<open>
  The second scan (lines 386 to 432), which fills the table. It returns
  \<^verbatim>\<open>pSplittableValuesStart\<close>, \<^verbatim>\<open>pStartEqualRange\<close>, the table and
  \<^verbatim>\<open>cEqualRangeItemsPrior\<close>. The counters \<^verbatim>\<open>cRemainingSplittingRanges\<close> and
  \<^verbatim>\<open>cTotalSplittable\<close> are written and never read, and are left out.
\<close>

function fill_splitting_ranges ::
  "'a FloatEbmType list \<Rightarrow> nat \<Rightarrow> nat \<Rightarrow> nat \<Rightarrow> nat \<Rightarrow> 'a FloatEbmType \<Rightarrow> nat \<Rightarrow> nat \<Rightarrow> nat
   \<Rightarrow> SplittingRange list \<Rightarrow> nat \<Rightarrow> (nat \<times> nat \<times> SplittingRange list \<times> nat) option" where
  "fill_splitting_ranges buf pValuesEnd avgLength cMinimumInstancesPerBin cSplittingRanges
     rangeValue pSplittableValuesStart pStartEqualRange pScan aSplittingRange cEqualRangeItemsPrior =
     (if pValuesEnd \<noteq> pScan then
        (if pScan < length buf then
           (let val = buf ! pScan in
            if float_ne val rangeValue then
              (let cEqualRangeItems = pScan - pStartEqualRange in
               if avgLength \<le> cEqualRangeItems then
                 (if 0 \<noteq> pSplittableValuesStart
                     \<or> cMinimumInstancesPerBin \<le> pStartEqualRange - pSplittableValuesStart
                  then
                    (case write_SplittingRange cSplittingRanges aSplittingRange
                            (new_SplittingRange pSplittableValuesStart
                               (pStartEqualRange - pSplittableValuesStart)
                               cEqualRangeItemsPrior cEqualRangeItems) of
                       None \<Rightarrow> None
                     | Some aSplittingRange' \<Rightarrow>
                         fill_splitting_ranges buf pValuesEnd avgLength cMinimumInstancesPerBin
                           cSplittingRanges val pScan pScan (pScan + 1) aSplittingRange'
                           cEqualRangeItems)
                  else
                    fill_splitting_ranges buf pValuesEnd avgLength cMinimumInstancesPerBin
                      cSplittingRanges val pScan pScan (pScan + 1) aSplittingRange
                      cEqualRangeItemsPrior)
               else
                 fill_splitting_ranges buf pValuesEnd avgLength cMinimumInstancesPerBin
                   cSplittingRanges val pSplittableValuesStart pScan (pScan + 1) aSplittingRange
                   cEqualRangeItemsPrior)
            else
              fill_splitting_ranges buf pValuesEnd avgLength cMinimumInstancesPerBin
                cSplittingRanges rangeValue pSplittableValuesStart pStartEqualRange (pScan + 1)
                aSplittingRange cEqualRangeItemsPrior)
         else None)
      else Some (pSplittableValuesStart, pStartEqualRange, aSplittingRange, cEqualRangeItemsPrior))"
  by pat_completeness auto
termination
  by (relation "measure (\<lambda>(buf, pValuesEnd, avgLength, cMinimumInstancesPerBin, cSplittingRanges,
        rangeValue, pSplittableValuesStart, pStartEqualRange, pScan, aSplittingRange,
        cEqualRangeItemsPrior). length buf - pScan)") auto

declare fill_splitting_ranges.simps [simp del]

text \<open>
  Lines 386 to 489: the second scan, the range that ends the buffer, and the flag of the
  last record. When fewer than \<^verbatim>\<open>cSplittingRanges\<close> records were written, line 489
  reads the flags of a record that was never initialised: undefined, \<open>None\<close>.
\<close>

definition build_splitting_ranges ::
  "'a FloatEbmType list \<Rightarrow> nat \<Rightarrow> nat \<Rightarrow> nat \<Rightarrow> nat \<Rightarrow> SplittingRange list option" where
  "build_splitting_ranges buf pValuesEnd avgLength cMinimumInstancesPerBin cSplittingRanges =
     (if 0 < length buf then
        (case fill_splitting_ranges buf pValuesEnd avgLength cMinimumInstancesPerBin
                cSplittingRanges (buf ! 0) 0 0 1 [] 0 of
           None \<Rightarrow> None
         | Some (pSplittableValuesStart, pStartEqualRange, aSplittingRange, cEqualRangeItemsPrior) \<Rightarrow>
             (let cEqualRangeItems = pValuesEnd - pStartEqualRange in
              case
                (if avgLength \<le> cEqualRangeItems then
                   (if 0 \<noteq> pSplittableValuesStart
                       \<or> cMinimumInstancesPerBin \<le> pStartEqualRange - pSplittableValuesStart
                    then
                      write_SplittingRange cSplittingRanges aSplittingRange
                        (new_SplittingRange pSplittableValuesStart
                           (pStartEqualRange - pSplittableValuesStart)
                           cEqualRangeItemsPrior cEqualRangeItems)
                    else Some aSplittingRange)
                 else
                   (if length aSplittingRange \<noteq> cSplittingRanges then
                      write_SplittingRange cSplittingRanges aSplittingRange
                        (new_SplittingRange pSplittableValuesStart
                           (pValuesEnd - pSplittableValuesStart)
                           cEqualRangeItemsPrior cEqualRangeItems)
                    else Some aSplittingRange))
              of
                None \<Rightarrow> None
              | Some aSplittingRange' \<Rightarrow>
                  (let iLast = cSplittingRanges - 1 in
                   if 0 < cSplittingRanges \<and> iLast < length aSplittingRange' then
                     Some (aSplittingRange'[iLast := (aSplittingRange' ! iLast)
                       \<lparr>m_flags := m_flags (aSplittingRange' ! iLast) OR k_LastSplittingRange\<rparr>])
                   else None)))
      else None)"

text \<open>
  From the label \<^verbatim>\<open>continue_working\<close> to the end (lines 367 to 586). The table is
  built, freed, and has no part in the result; \<^verbatim>\<open>exit_error\<close> and the \<^verbatim>\<open>catch\<close> both
  return 1 without a write.
\<close>

definition continue_working ::
  "platform \<Rightarrow> environment \<Rightarrow> int \<Rightarrow> 'a memory \<Rightarrow> nat \<Rightarrow> nat \<Rightarrow> nat \<Rightarrow> nat
   \<Rightarrow> (int \<times> 'a memory) option" where
  "continue_working pf env randomSeed mem pValuesEnd avgLength cMinimumInstancesPerBin
     cSplittingRanges =
     (case RandomStream_constructor env randomSeed of
        Constructor_throws \<Rightarrow> Some (1, mem)
      | IsSuccess_false \<Rightarrow> Some (1, mem)
      | IsSuccess_true \<Rightarrow>
          (if IsMultiplyError pf cSplittingRanges (cBytesCombined pf) then Some (1, mem)
           else if \<not> malloc_succeeds env (cSplittingRanges * cBytesCombined pf) then Some (1, mem)
           else
             (case build_splitting_ranges (mem_singleFeatureValues mem) pValuesEnd avgLength
                     cMinimumInstancesPerBin cSplittingRanges of
                None \<Rightarrow> None
              | Some aSplittingRange \<Rightarrow> Some (0, mem\<lparr>mem_countCutPoints := 0\<rparr>))))"

text \<open>
  Lines 336 to 365: the number of splitting ranges with which the call goes on to
  \<^verbatim>\<open>continue_working\<close>, or \<open>Some None\<close> for the \<^verbatim>\<open>goto done\<close>. The outer \<open>None\<close> is
  pointer arithmetic or a read outside the buffer.
\<close>

definition splitting_ranges_or_done ::
  "'a FloatEbmType list \<Rightarrow> nat \<Rightarrow> nat \<Rightarrow> nat \<Rightarrow> nat \<Rightarrow> nat option option" where
  "splitting_ranges_or_done buf pValuesEnd cMinimumInstancesPerBin pSplittableValuesStart
     cSplittingRanges =
     (if 0 = pSplittableValuesStart then
        (if 0 < cMinimumInstancesPerBin \<and> cMinimumInstancesPerBin \<le> pValuesEnd
            \<and> cMinimumInstancesPerBin - 1 < length buf then
           (case check_for_split_point buf (buf ! (cMinimumInstancesPerBin - 1))
                   cMinimumInstancesPerBin (pValuesEnd - cMinimumInstancesPerBin) of
              None \<Rightarrow> None
            | Some found \<Rightarrow> Some (if found then Some 1 else None))
         else None)
      else
        (let cItemsLast = pValuesEnd - pSplittableValuesStart in
         if cMinimumInstancesPerBin \<le> cItemsLast then Some (Some (cSplittingRanges + 1))
         else if 0 = cSplittingRanges then Some None
         else Some (Some cSplittingRanges)))"

text \<open>Lines 312 to 566, the innermost \<^verbatim>\<open>else\<close>.\<close>

definition GenerateQuantileCutPoints_ranges ::
  "platform \<Rightarrow> environment \<Rightarrow> int \<Rightarrow> 'a memory \<Rightarrow> nat \<Rightarrow> bool \<Rightarrow> int \<Rightarrow> nat
   \<Rightarrow> (int \<times> 'a memory) option" where
  "GenerateQuantileCutPoints_ranges pf env randomSeed mem pValuesEnd bMissing countMaximumBins
     cMinimumInstancesPerBin =
     (case GetCountBinsMax pf bMissing countMaximumBins of
        None \<Rightarrow> None
      | Some cMaximumBins \<Rightarrow>
          (case GetAvgLength pf pValuesEnd cMaximumBins cMinimumInstancesPerBin of
             None \<Rightarrow> None
           | Some avgLength \<Rightarrow>
               (let buf = mem_singleFeatureValues mem in
                if 0 < length buf then
                  (case count_splitting_ranges buf pValuesEnd avgLength cMinimumInstancesPerBin
                          (buf ! 0) 0 0 1 0 of
                     None \<Rightarrow> None
                   | Some (pSplittableValuesStart, cSplittingRanges0) \<Rightarrow>
                       (case splitting_ranges_or_done buf pValuesEnd cMinimumInstancesPerBin
                               pSplittableValuesStart cSplittingRanges0 of
                          None \<Rightarrow> None
                        | Some None \<Rightarrow> Some (0, mem\<lparr>mem_countCutPoints := 0\<rparr>)
                        | Some (Some cSplittingRanges) \<Rightarrow>
                            continue_working pf env randomSeed mem pValuesEnd avgLength
                              cMinimumInstancesPerBin cSplittingRanges))
                else None)))"

text \<open>
  The exported function. The result is the returned status and the memory after the
  call; \<open>None\<close> is a call that does not return or whose behaviour is undefined.
\<close>

definition GenerateQuantileCutPoints ::
  "platform \<Rightarrow> environment \<Rightarrow> int \<Rightarrow> int \<Rightarrow> int \<Rightarrow> int \<Rightarrow> 'a::{linorder,zero} memory
   \<Rightarrow> (int \<times> 'a memory) option" where
  "GenerateQuantileCutPoints pf env randomSeed countInstances countMaximumBins
     countMinimumInstancesPerBin mem =
     (if \<not> IsNumberConvertable pf countInstances then Some (1, mem)
      else if \<not> IsNumberConvertable pf countMaximumBins then Some (1, mem)
      else if \<not> IsNumberConvertable pf countMinimumInstancesPerBin then Some (1, mem)
      else
        (let cInstancesIncludingMissingValues = static_cast_size_t pf countInstances in
         if 0 = cInstancesIncludingMissingValues then
           Some (0, mem\<lparr>mem_countCutPoints := 0, mem_isMissing := EBM_FALSE,
                         mem_minValue := Num 0, mem_maxValue := Num 0\<rparr>)
         else
           (case RemoveMissingValues (mem_singleFeatureValues mem)
                   cInstancesIncludingMissingValues of
              None \<Rightarrow> None
            | Some (buf, pValuesEnd) \<Rightarrow>
                (let bMissing = (cInstancesIncludingMissingValues \<noteq> pValuesEnd);
                     mem1 = mem\<lparr>mem_singleFeatureValues := buf,
                                 mem_isMissing := (if bMissing then EBM_TRUE else EBM_FALSE)\<rparr>;
                     cInstances = pValuesEnd
                 in
                 if 0 = cInstances then
                   Some (0, mem1\<lparr>mem_countCutPoints := 0, mem_minValue := Num 0,
                                  mem_maxValue := Num 0\<rparr>)
                 else
                   (let sorted = std_sort (take pValuesEnd buf) @ drop pValuesEnd buf;
                        mem2 = mem1\<lparr>mem_singleFeatureValues := sorted,
                                     mem_minValue := sorted ! 0,
                                     mem_maxValue := sorted ! (pValuesEnd - 1)\<rparr>
                    in
                    if countMaximumBins \<le> 1 then Some (0, mem2\<lparr>mem_countCutPoints := 0\<rparr>)
                    else
                      (let cMinimumInstancesPerBin =
                             (if countMinimumInstancesPerBin \<le> 0 then 1
                              else static_cast_size_t pf countMinimumInstancesPerBin)
                       in
                       if cInstances < (cMinimumInstancesPerBin * 2) mod 2 ^ size_bits pf then
                         Some (0, mem2\<lparr>mem_countCutPoints := 0\<rparr>)
                       else
                         GenerateQuantileCutPoints_ranges pf env randomSeed mem2 pValuesEnd
                           bMissing countMaximumBins cMinimumInstancesPerBin))))))"

section \<open>Discretize\<close>

text \<open>
  The binary search of \<^verbatim>\<open>Discretize\<close> (lines 686 to 692, and again 710 to 716), a
  \<^verbatim>\<open>do ... while(low <= high)\<close> loop on \<^verbatim>\<open>ptrdiff_t\<close> values. It returns the last
  \<^verbatim>\<open>middle\<close> and the last outcome of \<^verbatim>\<open>midVal <= val\<close>; \<open>None\<close> is a read outside the cut
  points. \<^verbatim>\<open>>> 1\<close> on a \<^verbatim>\<open>ptrdiff_t\<close> is the arithmetic shift, \<open>div 2\<close>.
\<close>

function Discretize_search ::
  "'a::linorder FloatEbmType list \<Rightarrow> 'a FloatEbmType \<Rightarrow> int \<Rightarrow> int \<Rightarrow> (int \<times> bool) option" where
  "Discretize_search cutPointsLowerBoundInclusive val low high =
     (let middle = (low + high) div 2 in
      if 0 \<le> middle \<and> nat middle < length cutPointsLowerBoundInclusive then
        (let midVal = cutPointsLowerBoundInclusive ! nat middle;
             high' = (if float_le midVal val then high else middle - 1);
             low' = (if float_le midVal val then middle + 1 else low)
         in
         if low' \<le> high' then Discretize_search cutPointsLowerBoundInclusive val low' high'
         else Some (middle, float_le midVal val))
      else None)"
  by pat_completeness auto
termination
  by (relation "measure (\<lambda>(cutPointsLowerBoundInclusive, val, low, high). nat (high - low + 1))")
    (auto simp: Let_def split: if_splits)

declare Discretize_search.simps [simp del]

text \<open>The body of the loop over the values when missing values are possible (lines 680 to 697).\<close>

definition Discretize_with_missing ::
  "'a::linorder FloatEbmType list \<Rightarrow> int \<Rightarrow> 'a FloatEbmType \<Rightarrow> int option" where
  "Discretize_with_missing cutPointsLowerBoundInclusive highStart val =
     (if \<not> isnan val then
        (case Discretize_search cutPointsLowerBoundInclusive val 0 highStart of
           None \<Rightarrow> None
         | Some (middle, midVal_le_val) \<Rightarrow>
             Some (if midVal_le_val then middle + 2 else middle + 1))
      else Some 0)"

text \<open>The body of the loop over the values when they are not (lines 704 to 720).\<close>

definition Discretize_without_missing ::
  "'a::linorder FloatEbmType list \<Rightarrow> int \<Rightarrow> 'a FloatEbmType \<Rightarrow> int option" where
  "Discretize_without_missing cutPointsLowerBoundInclusive highStart val =
     (if \<not> isnan val then
        (case Discretize_search cutPointsLowerBoundInclusive val 0 highStart of
           None \<Rightarrow> None
         | Some (middle, midVal_le_val) \<Rightarrow>
             Some (if midVal_le_val then middle + 1 else middle))
      else Some (- 1))"

text \<open>
  The three \<^verbatim>\<open>do ... while(pValueEnd != pValue)\<close> loops over the values differ in their
  body only, which is the parameter \<open>body\<close>. \<^verbatim>\<open>pValue\<close> and \<^verbatim>\<open>pDiscretized\<close> advance
  together and are one index. \<open>None\<close> is a read outside the values or a write outside
  \<^verbatim>\<open>singleFeatureDiscretized\<close>.
\<close>

function Discretize_loop ::
  "('a FloatEbmType \<Rightarrow> int option) \<Rightarrow> 'a FloatEbmType list \<Rightarrow> nat \<Rightarrow> nat \<Rightarrow> int list
   \<Rightarrow> int list option" where
  "Discretize_loop body singleFeatureValues pValue pValueEnd singleFeatureDiscretized =
     (if pValue < length singleFeatureValues \<and> pValue < length singleFeatureDiscretized then
        (case body (singleFeatureValues ! pValue) of
           None \<Rightarrow> None
         | Some result \<Rightarrow>
             (let singleFeatureDiscretized' = singleFeatureDiscretized[pValue := result];
                  pValue' = pValue + 1
              in
              if pValueEnd \<noteq> pValue' then
                Discretize_loop body singleFeatureValues pValue' pValueEnd
                  singleFeatureDiscretized'
              else Some singleFeatureDiscretized'))
      else None)"
  by pat_completeness auto
termination
  by (relation "measure (\<lambda>(body, singleFeatureValues, pValue, pValueEnd,
        singleFeatureDiscretized). length singleFeatureValues - pValue)") auto

declare Discretize_loop.simps [simp del]

text \<open>
  The exported function: the result is \<^verbatim>\<open>singleFeatureDiscretized\<close> after the call.
\<close>

definition Discretize ::
  "platform \<Rightarrow> int \<Rightarrow> int \<Rightarrow> 'a::linorder FloatEbmType list \<Rightarrow> int \<Rightarrow> 'a FloatEbmType list
   \<Rightarrow> int list \<Rightarrow> int list option" where
  "Discretize pf isMissing countCutPoints cutPointsLowerBoundInclusive countInstances
     singleFeatureValues singleFeatureDiscretized =
     (if 0 < countInstances then
        (let cCutPoints = static_cast_size_t pf countCutPoints;
             cInstances = static_cast_size_t pf countInstances
         in
         if 0 = cCutPoints then
           (let missingVal = (if EBM_FALSE \<noteq> isMissing then 0 else - 1);
                nonMissingVal = (if EBM_FALSE \<noteq> isMissing then 1 else 0)
            in
            Discretize_loop (\<lambda>val. Some (if isnan val then missingVal else nonMissingVal))
              singleFeatureValues 0 cInstances singleFeatureDiscretized)
         else
           (let highStart = static_cast_ptrdiff_t pf (cCutPoints - 1) in
            if EBM_FALSE \<noteq> isMissing then
              Discretize_loop (Discretize_with_missing cutPointsLowerBoundInclusive highStart)
                singleFeatureValues 0 cInstances singleFeatureDiscretized
            else
              Discretize_loop (Discretize_without_missing cutPointsLowerBoundInclusive highStart)
                singleFeatureValues 0 cInstances singleFeatureDiscretized))
      else Some singleFeatureDiscretized)"

section \<open>SortSplittingRangesByCountItemsAscending and SortSplittingRangesByUnsplittableDescending\<close>

text \<open>
  The array \<^verbatim>\<open>apSplittingRange\<close> of pointers is the list of the records they point to.
  The random stream (RandomStream.h) is a state \<open>rs\<close> and a function \<open>Next\<close>, which for
  a state and a bound gives the number drawn and the next state.

  The two functions have the same text but for the comparison of \<^verbatim>\<open>std::sort\<close> and for
  the fields that make a block: \<^verbatim>\<open>m_cSplittableItems\<close> in the first,
  \<^verbatim>\<open>m_cUnsplittableEitherSideMax\<close> and \<^verbatim>\<open>m_cUnsplittableEitherSideMin\<close> in the second.
  The loops take these fields as the function \<open>key\<close>.
\<close>

definition compare_CountItemsAscending :: "SplittingRange \<Rightarrow> SplittingRange \<Rightarrow> bool" where
  "compare_CountItemsAscending pSplittingRange1 pSplittingRange2 =
     (if m_cSplittableItems pSplittingRange1 = m_cSplittableItems pSplittingRange2 then
        m_pSplittableValuesStart pSplittingRange1 < m_pSplittableValuesStart pSplittingRange2
      else m_cSplittableItems pSplittingRange1 < m_cSplittableItems pSplittingRange2)"

definition compare_UnsplittableDescending :: "SplittingRange \<Rightarrow> SplittingRange \<Rightarrow> bool" where
  "compare_UnsplittableDescending pSplittingRange1 pSplittingRange2 =
     (if m_cUnsplittableEitherSideMax pSplittingRange1
           = m_cUnsplittableEitherSideMax pSplittingRange2 then
        (if m_cUnsplittableEitherSideMin pSplittingRange1
              = m_cUnsplittableEitherSideMin pSplittingRange2 then
           m_pSplittableValuesStart pSplittingRange1 > m_pSplittableValuesStart pSplittingRange2
         else
           m_cUnsplittableEitherSideMin pSplittingRange1
             > m_cUnsplittableEitherSideMin pSplittingRange2)
      else
        m_cUnsplittableEitherSideMax pSplittingRange1
          > m_cUnsplittableEitherSideMax pSplittingRange2)"

text \<open>
  The shuffle of one block, \<^verbatim>\<open>while(1 != cRemainingItems)\<close> (lines 68 to 75, 82 to 89, 124
  to 131 and 139 to 146). \<open>None\<close> is an access outside the array, or the loop entered with
  \<^verbatim>\<open>cRemainingItems = 0\<close>, whose counter wraps around.
\<close>

function shuffle_equal_range ::
  "('r \<Rightarrow> nat \<Rightarrow> nat \<times> 'r) \<Rightarrow> 'r \<Rightarrow> 'a list \<Rightarrow> nat \<Rightarrow> nat \<Rightarrow> ('r \<times> 'a list) option" where
  "shuffle_equal_range Next rs apSplittingRange iStartEqualLengthRange cRemainingItems =
     (if 1 \<noteq> cRemainingItems then
        (if cRemainingItems = 0 then None
         else
           (let (iSwap, rs') = Next rs cRemainingItems in
            if iStartEqualLengthRange + iSwap < length apSplittingRange then
              (let pTmp = apSplittingRange ! iStartEqualLengthRange;
                   apSplittingRange' = apSplittingRange
                     [iStartEqualLengthRange := apSplittingRange ! (iStartEqualLengthRange + iSwap),
                      iStartEqualLengthRange + iSwap := pTmp]
               in
               shuffle_equal_range Next rs' apSplittingRange' (iStartEqualLengthRange + 1)
                 (cRemainingItems - 1))
            else None))
      else Some (rs, apSplittingRange))"
  by pat_completeness auto
termination
  by (relation "measure (\<lambda>(Next, rs, apSplittingRange, iStartEqualLengthRange, cRemainingItems).
        cRemainingItems)") auto

declare shuffle_equal_range.simps [simp del]

text \<open>
  The \<^verbatim>\<open>for\<close> loop that finds the blocks (lines 62 to 79 and 117 to 136). It returns the
  stream, the array and \<^verbatim>\<open>iStartEqualLengthRange\<close>.
\<close>

function shuffle_equal_ranges ::
  "(SplittingRange \<Rightarrow> 'k) \<Rightarrow> ('r \<Rightarrow> nat \<Rightarrow> nat \<times> 'r) \<Rightarrow> 'r \<Rightarrow> SplittingRange list \<Rightarrow> nat \<Rightarrow> nat
   \<Rightarrow> 'k \<Rightarrow> nat \<Rightarrow> ('r \<times> SplittingRange list \<times> nat) option" where
  "shuffle_equal_ranges key Next rs apSplittingRange cSplittingRanges iStartEqualLengthRange
     cItems i =
     (if i < cSplittingRanges then
        (if i < length apSplittingRange then
           (let cNewItems = key (apSplittingRange ! i) in
            if cItems \<noteq> cNewItems then
              (case shuffle_equal_range Next rs apSplittingRange iStartEqualLengthRange
                      (i - iStartEqualLengthRange) of
                 None \<Rightarrow> None
               | Some (rs', apSplittingRange') \<Rightarrow>
                   shuffle_equal_ranges key Next rs' apSplittingRange' cSplittingRanges i
                     cNewItems (i + 1))
            else
              shuffle_equal_ranges key Next rs apSplittingRange cSplittingRanges
                iStartEqualLengthRange cItems (i + 1))
         else None)
      else Some (rs, apSplittingRange, iStartEqualLengthRange))"
  by pat_completeness auto
termination
  by (relation "measure (\<lambda>(key, Next, rs, apSplittingRange, cSplittingRanges,
        iStartEqualLengthRange, cItems, i). cSplittingRanges - i)") auto

declare shuffle_equal_ranges.simps [simp del]

text \<open>
  The common text of the two functions: sort, shuffle every block but the last in the
  \<^verbatim>\<open>for\<close> loop, and shuffle the last block. The result is the stream and the array
  after the call. \<open>None\<close> also stands for a \<^verbatim>\<open>cSplittingRanges\<close> that is 0 or larger than
  the array.
\<close>

definition sort_and_shuffle ::
  "(SplittingRange \<Rightarrow> SplittingRange \<Rightarrow> bool) \<Rightarrow> (SplittingRange \<Rightarrow> 'k)
   \<Rightarrow> ('r \<Rightarrow> nat \<Rightarrow> nat \<times> 'r) \<Rightarrow> 'r \<Rightarrow> nat \<Rightarrow> SplittingRange list
   \<Rightarrow> ('r \<times> SplittingRange list) option" where
  "sort_and_shuffle precedes key Next rs cSplittingRanges apSplittingRange =
     (if 1 \<le> cSplittingRanges \<and> cSplittingRanges \<le> length apSplittingRange then
        (let sorted = std_sort_by precedes (take cSplittingRanges apSplittingRange)
                        @ drop cSplittingRanges apSplittingRange
         in
         case shuffle_equal_ranges key Next rs sorted cSplittingRanges 0 (key (sorted ! 0)) 1 of
           None \<Rightarrow> None
         | Some (rs', apSplittingRange', iStartEqualLengthRange) \<Rightarrow>
             shuffle_equal_range Next rs' apSplittingRange' iStartEqualLengthRange
               (cSplittingRanges - iStartEqualLengthRange))
      else None)"

definition SortSplittingRangesByCountItemsAscending ::
  "('r \<Rightarrow> nat \<Rightarrow> nat \<times> 'r) \<Rightarrow> 'r \<Rightarrow> nat \<Rightarrow> SplittingRange list
   \<Rightarrow> ('r \<times> SplittingRange list) option" where
  "SortSplittingRangesByCountItemsAscending Next pRandomStream cSplittingRanges apSplittingRange =
     sort_and_shuffle compare_CountItemsAscending m_cSplittableItems
       Next pRandomStream cSplittingRanges apSplittingRange"

definition SortSplittingRangesByUnsplittableDescending ::
  "('r \<Rightarrow> nat \<Rightarrow> nat \<times> 'r) \<Rightarrow> 'r \<Rightarrow> nat \<Rightarrow> SplittingRange list
   \<Rightarrow> ('r \<times> SplittingRange list) option" where
  "SortSplittingRangesByUnsplittableDescending Next pRandomStream cSplittingRanges apSplittingRange =
     sort_and_shuffle compare_UnsplittableDescending
       (\<lambda>r. (m_cUnsplittableEitherSideMax r, m_cUnsplittableEitherSideMin r))
       Next pRandomStream cSplittingRanges apSplittingRange"

text \<open>
  The same in the words of the spec, to compare the two functions with: "within every
  maximal block of entries sharing an identical primary key, perform an in-place
  Fisher-Yates-style shuffle restricted to that block, drawing each swap index from the
  seeded source".

  \<open>maximal_blocks\<close> cuts a list into its maximal blocks of neighbours with the same key:
  the first element with the longest run of elements behind it that have its key, and
  then the blocks of what is left.
\<close>

function maximal_blocks :: "('a \<Rightarrow> 'k) \<Rightarrow> 'a list \<Rightarrow> 'a list list" where
  "maximal_blocks key [] = []"
| "maximal_blocks key (x # xs) =
     (x # takeWhile (\<lambda>y. key y = key x) xs)
       # maximal_blocks key (dropWhile (\<lambda>y. key y = key x) xs)"
  by pat_completeness auto
termination
  by (relation "measure (\<lambda>(key, xs). length xs)") (auto simp: length_dropWhile_le less_Suc_eq_le)

declare maximal_blocks.simps [simp del]

text \<open>
  The Fisher-Yates shuffle of one block: while more than one element remains, draw an
  index below the number of remaining elements, exchange the first remaining element
  with the one at that index, and go on with the elements behind the first. A block of
  \<open>c\<close> elements takes \<open>c - 1\<close> draws, with the bounds \<open>c\<close>, \<open>c - 1\<close>, ..., 2.
\<close>

function Fisher_Yates_shuffle ::
  "('r \<Rightarrow> nat \<Rightarrow> nat \<times> 'r) \<Rightarrow> 'r \<Rightarrow> 'a list \<Rightarrow> 'r \<times> 'a list" where
  "Fisher_Yates_shuffle Next rs block =
     (if length block \<le> 1 then (rs, block)
      else
        (let (iSwap, rs') = Next rs (length block);
             swapped = block[0 := block ! iSwap, iSwap := block ! 0];
             (rs'', shuffled) = Fisher_Yates_shuffle Next rs' (tl swapped)
         in (rs'', hd swapped # shuffled)))"
  by pat_completeness auto
termination
  by (relation "measure (\<lambda>(Next, rs, block). length block)") auto

declare Fisher_Yates_shuffle.simps [simp del]

text \<open>
  The blocks are shuffled one after the other, from the first to the last, with one
  random stream; the result is the stream after the last draw and the shuffled blocks
  put together again.
\<close>

fun shuffle_blocks ::
  "('r \<Rightarrow> nat \<Rightarrow> nat \<times> 'r) \<Rightarrow> 'r \<Rightarrow> 'a list list \<Rightarrow> 'r \<times> 'a list" where
  "shuffle_blocks Next rs [] = (rs, [])"
| "shuffle_blocks Next rs (block # blocks) =
     (let (rs', shuffled) = Fisher_Yates_shuffle Next rs block;
          (rs'', rest) = shuffle_blocks Next rs' blocks
      in (rs'', shuffled @ rest))"

text \<open>
  A random stream for the witnesses: the state is a number, and a draw below \<open>n\<close> takes
  the state modulo \<open>n\<close> and steps the state.
\<close>

definition Next_example :: "nat \<Rightarrow> nat \<Rightarrow> nat \<times> nat" where
  "Next_example rs n = (rs mod n, rs * 5 + 3)"

text \<open>
  The platform of the witnesses: a 64-bit \<^verbatim>\<open>size_t\<close>, IEEE doubles, and a 64-byte
  \<^verbatim>\<open>SplittingRange\<close> with an 8-byte pointer.
\<close>

definition platform64 :: platform where
  "platform64 = \<lparr>size_bits = 64, float_digits = 53, cBytesCombined = 72\<rparr>"

text \<open>
  An environment in which the random stream is constructed and memory is granted, and
  one in which \<^verbatim>\<open>malloc\<close> returns a null pointer.
\<close>

definition environment_ok :: environment where
  "environment_ok =
     \<lparr>RandomStream_constructor = (\<lambda>seed. IsSuccess_true), malloc_succeeds = (\<lambda>bytes. True)\<rparr>"

definition environment_no_memory :: environment where
  "environment_no_memory =
     \<lparr>RandomStream_constructor = (\<lambda>seed. IsSuccess_true), malloc_succeeds = (\<lambda>bytes. False)\<rparr>"

text \<open>The memory of a caller that passes the values \<open>vs\<close> and has set every output to 7.\<close>

definition memory_of :: "int FloatEbmType list \<Rightarrow> int memory" where
  "memory_of vs =
     \<lparr>mem_singleFeatureValues = vs, mem_cutPointsLowerBoundInclusive = [],
      mem_countCutPoints = 7, mem_isMissing = 7, mem_minValue = Num 7, mem_maxValue = Num 7\<rparr>"

text \<open>A table of six splitting ranges for the witnesses.\<close>

definition example_range :: "nat \<Rightarrow> nat \<Rightarrow> nat \<Rightarrow> nat \<Rightarrow> SplittingRange" where
  "example_range pStart cItems cPrior cSubsequent =
     new_SplittingRange pStart cItems cPrior cSubsequent"

definition example_table :: "SplittingRange list" where
  "example_table =
     [example_range 0 3 0 5, example_range 10 2 5 5, example_range 20 3 5 9,
      example_range 30 2 9 5, example_range 40 3 5 0, example_range 50 2 5 9]"

section \<open>Properties of GetCountBinsMax\<close>

lemma pow2_ne_8: "(2::nat) ^ (4 + d) \<noteq> 8"
proof
  assume "(2::nat) ^ (4 + d) = 8"
  then have "(2::nat) ^ (4 + d) = 2 ^ 3" by simp
  then have "4 + d = 3" by (simp only: power_inject_exp[of 2])
  then show False by simp
qed

lemma pow2_range_Suc: "(\<exists>j. 4 \<le> j \<and> j \<le> 4 + Suc d \<and> c = 2 ^ j) \<longleftrightarrow>
            (c = (2::nat) ^ (4 + Suc d) \<or> (\<exists>j. 4 \<le> j \<and> j \<le> 4 + d \<and> c = 2 ^ j))"
proof -
  have "\<And>j. j \<le> 4 + Suc d \<longleftrightarrow> j = 4 + Suc d \<or> j \<le> 4 + d" by arith
  then show ?thesis by (metis le_add1)
qed

lemma pow2_range_0: "(\<exists>j. 4 \<le> j \<and> j \<le> 4 + (0::nat) \<and> c = 2 ^ j) \<longleftrightarrow> c = (16::nat)"
proof -
  have "\<And>j. (4 \<le> j \<and> j \<le> 4 + (0::nat) \<and> c = 2 ^ j) = (j = 4 \<and> c = 16)" by auto
  then show ?thesis by simp
qed

lemma GetCountBinsMax_loop_pow:
  "GetCountBinsMax_loop pf (2 ^ (4 + d)) c =
     Some (if \<exists>j. 4 \<le> j \<and> j \<le> 4 + d \<and> c = 2 ^ j then size_t_decrement pf c else c)"
proof (induction d)
  case 0
  show ?case
    by (subst GetCountBinsMax_loop.simps) (simp only: pow2_range_0, simp)
next
  case (Suc d)
  have "(2::nat) ^ (4 + Suc d) = 2 * 2 ^ (4 + d)" by (simp only: add_Suc_right power_Suc)
  then have half: "(2::nat) ^ (4 + Suc d) div 2 = 2 ^ (4 + d)" by (simp only: nonzero_mult_div_cancel_left)
  show ?case
  proof (cases "c = 2 ^ (4 + Suc d)")
    case True
    then show ?thesis
      by (subst GetCountBinsMax_loop.simps) (simp only: pow2_range_Suc if_True simp_thms)
  next
    case False
    have "GetCountBinsMax_loop pf (2 ^ (4 + Suc d)) c = GetCountBinsMax_loop pf (2 ^ (4 + d)) c"
      using False pow2_ne_8[of d] 
      by (subst GetCountBinsMax_loop.simps) (simp only: half Let_def, simp)
    then show ?thesis
      using False by (simp only: Suc.IH pow2_range_Suc simp_thms)
  qed
qed

lemma top_bit: "((2 ^ Suc n - 1) div 2 + 1) mod 2 ^ Suc n = (2::nat) ^ n"
proof -
  have halve: "0 < x \<Longrightarrow> (2 * x - 1) div 2 = x - 1" for x :: nat by arith
  have "(2 ^ Suc n - 1) div 2 = (2::nat) ^ n - 1"
    using halve[of "2 ^ n"] by (simp only: power_Suc)
  moreover have "(2::nat) ^ n < 2 ^ Suc n" by simp
  ultimately show ?thesis by simp
qed

lemma GetCountBinsMax_returns:
  assumes w: "5 \<le> size_bits pf"
    and lo: "2 \<le> countMaximumBins"
    and hi: "countMaximumBins < 2 ^ size_bits pf"
  shows "\<exists>m. GetCountBinsMax pf bMissing countMaximumBins = Some m \<and> 1 \<le> m"
proof -
  let ?w = "size_bits pf"
  let ?c = "nat countMaximumBins"
  have cast: "static_cast_size_t pf countMaximumBins = ?c"
    using lo hi by (simp add: static_cast_size_t_def)
  define d where "d = ?w - 5"
  have w1: "?w = Suc (4 + d)" using w by (simp add: d_def)
  have cBits: "((2 ^ ?w - 1) div 2 + 1) mod 2 ^ ?w = (2::nat) ^ (4 + d)"
    unfolding w1 by (rule top_bit)
  have dec: "size_t_decrement pf ?c = ?c - 1" using lo by (simp add: size_t_decrement_def)
  have c2: "1 \<le> ?c" "1 \<le> ?c - 1" using lo by simp_all
  show ?thesis
    unfolding GetCountBinsMax_def cast Let_def cBits GetCountBinsMax_loop_pow dec
    using c2 by (simp del: One_nat_def)
qed

text \<open>
  C6. On a platform whose \<^verbatim>\<open>size_t\<close> has at least 5 bits, for every \<^verbatim>\<open>countMaximumBins\<close>
  from 2 that fits \<^verbatim>\<open>size_t\<close>: when missing values are present and \<^verbatim>\<open>countMaximumBins\<close>
  is a power of two and at least 16, \<^verbatim>\<open>GetCountBinsMax\<close> returns
  \<^verbatim>\<open>countMaximumBins - 1\<close>; in every other case it returns \<^verbatim>\<open>countMaximumBins\<close>. The loop
  always ends.
\<close>

theorem GetCountBinsMax_spec:
  assumes w: "5 \<le> size_bits pf"
    and lo: "2 \<le> countMaximumBins"
    and hi: "countMaximumBins < 2 ^ size_bits pf"
  shows "GetCountBinsMax pf bMissing countMaximumBins =
           Some (if bMissing \<and> (\<exists>k. countMaximumBins = 2 ^ k) \<and> 16 \<le> countMaximumBins
                 then nat countMaximumBins - 1 else nat countMaximumBins)"
proof -
  let ?w = "size_bits pf"
  let ?c = "nat countMaximumBins"
  have cast: "static_cast_size_t pf countMaximumBins = ?c"
    using lo hi by (simp add: static_cast_size_t_def)
  define d where "d = ?w - 5"
  have w1: "?w = Suc (4 + d)" using w by (simp add: d_def)
  have cBits: "((2 ^ ?w - 1) div 2 + 1) mod 2 ^ ?w = (2::nat) ^ (4 + d)"
    unfolding w1 by (rule top_bit)
  have pw: "(\<exists>j. 4 \<le> j \<and> j \<le> 4 + d \<and> ?c = 2 ^ j) \<longleftrightarrow>
            ((\<exists>k. countMaximumBins = 2 ^ k) \<and> 16 \<le> countMaximumBins)"
  proof
    assume "\<exists>j. 4 \<le> j \<and> j \<le> 4 + d \<and> ?c = 2 ^ j"
    then obtain j where j: "4 \<le> j" "?c = 2 ^ j" by blast
    have "countMaximumBins = int ?c" using lo by simp
    then have e: "countMaximumBins = 2 ^ j" unfolding j(2) by simp
    have "(2::int) ^ 4 \<le> 2 ^ j" using j(1) by (intro power_increasing) auto
    then show "(\<exists>k. countMaximumBins = 2 ^ k) \<and> 16 \<le> countMaximumBins" using e by auto
  next
    assume "(\<exists>k. countMaximumBins = 2 ^ k) \<and> 16 \<le> countMaximumBins"
    then obtain k where k: "countMaximumBins = 2 ^ k" "16 \<le> countMaximumBins" by blast
    have "(2::int) ^ 4 \<le> 2 ^ k" using k by simp
    then have k4: "4 \<le> k" by (simp only: power_increasing_iff[of 2]) 
    have "(2::int) ^ k < 2 ^ ?w" using hi k by simp
    then have "k < ?w" by (simp only: power_strict_increasing_iff[of 2])
    then have "k \<le> 4 + d" using w1 by simp
    moreover have "?c = 2 ^ k" using k(1) by (simp add: nat_power_eq)
    ultimately show "\<exists>j. 4 \<le> j \<and> j \<le> 4 + d \<and> ?c = 2 ^ j" using k4 by blast
  qed
  have dec: "size_t_decrement pf ?c = ?c - 1" using lo by (simp add: size_t_decrement_def)
  show ?thesis
    unfolding GetCountBinsMax_def cast Let_def cBits GetCountBinsMax_loop_pow pw dec
    by simp
qed

theorem GetCountBinsMax_spec_witness:
  "GetCountBinsMax platform64 True 256 = Some 255
   \<and> GetCountBinsMax platform64 True 8 = Some 8
   \<and> GetCountBinsMax platform64 True 48 = Some 48
   \<and> GetCountBinsMax platform64 False 256 = Some 256"
proof -
  have p256: "\<exists>k. (256::int) = 2 ^ k" by (rule exI[of _ 8]) simp
  have p8: "\<exists>k. (8::int) = 2 ^ k" by (rule exI[of _ 3]) simp
  have n48: "\<not> (\<exists>k. (48::int) = 2 ^ k)"
  proof
    assume "\<exists>k. (48::int) = 2 ^ k"
    then obtain k where k: "(48::int) = 2 ^ k" ..
    have "(2::int) ^ 5 < 2 ^ k" "(2::int) ^ k < 2 ^ 6" using k by simp_all
    then have "5 < k" "k < 6" by (simp_all only: power_strict_increasing_iff[of 2])
    then show False by simp
  qed
  show ?thesis
    using GetCountBinsMax_spec[of platform64 256 True] GetCountBinsMax_spec[of platform64 8 True]
      GetCountBinsMax_spec[of platform64 48 True] GetCountBinsMax_spec[of platform64 256 False]
      p256 p8 n48
    by (simp add: platform64_def)
qed

section \<open>Properties of RemoveMissingValues and GenerateQuantileCutPoints\<close>

lemma slice_Cons:
  "s < e \<Longrightarrow> e \<le> length xs \<Longrightarrow> take (e - s) (drop s xs) = xs ! s # take (e - Suc s) (drop (Suc s) xs)"
  by (metis Cons_nth_drop_Suc Suc_diff_Suc less_le_trans take_Suc_Cons)

lemma RemoveMissingValues_skip_val_correct:
  "pCopyTo \<le> pCopyFrom \<Longrightarrow> pCopyFrom < pEnd \<Longrightarrow> pEnd \<le> length buf \<Longrightarrow>
   \<exists>buf' n. RemoveMissingValues_skip_val buf pCopyFrom pCopyTo pEnd = Some (buf', n)
     \<and> length buf' = length buf
     \<and> take n buf' = take pCopyTo buf @ filter (\<lambda>v. \<not> isnan v) (take (pEnd - Suc pCopyFrom) (drop (Suc pCopyFrom) buf))
     \<and> drop pEnd buf' = drop pEnd buf \<and> n \<le> pEnd"
proof (induction buf pCopyFrom pCopyTo pEnd rule: RemoveMissingValues_skip_val.induct)
  case (1 buf pCopyFrom pCopyTo pEnd)
  show ?case
  proof (cases "pEnd = Suc pCopyFrom")
    case True
    with 1 show ?thesis by (subst RemoveMissingValues_skip_val.simps) simp
  next
    case False
    with 1 have lt: "Suc pCopyFrom < pEnd" "Suc pCopyFrom < length buf" "pCopyTo < length buf" by auto
    have sl: "take (pEnd - Suc pCopyFrom) (drop (Suc pCopyFrom) buf)
        = buf ! Suc pCopyFrom # take (pEnd - Suc (Suc pCopyFrom)) (drop (Suc (Suc pCopyFrom)) buf)"
      using slice_Cons[of "Suc pCopyFrom" pEnd buf] lt 1 by simp
    show ?thesis
    proof (cases "isnan (buf ! Suc pCopyFrom)")
      case True
      have "\<exists>buf' n. RemoveMissingValues_skip_val buf (Suc pCopyFrom) pCopyTo pEnd = Some (buf', n)
     \<and> length buf' = length buf
     \<and> take n buf' = take pCopyTo buf @ filter (\<lambda>v. \<not> isnan v) (take (pEnd - Suc (Suc pCopyFrom)) (drop (Suc (Suc pCopyFrom)) buf))
     \<and> drop pEnd buf' = drop pEnd buf \<and> n \<le> pEnd"
        using "1.IH"(2)[of "Suc pCopyFrom" "buf ! Suc pCopyFrom"] lt True False "1.prems" by simp
      then show ?thesis
        using lt True False by (subst RemoveMissingValues_skip_val.simps) (simp add: sl)
    next
      case nn: False
      let ?b = "buf[pCopyTo := buf ! Suc pCopyFrom]"
      have "\<exists>buf' n. RemoveMissingValues_skip_val ?b (Suc pCopyFrom) (Suc pCopyTo) pEnd = Some (buf', n)
     \<and> length buf' = length ?b
     \<and> take n buf' = take (Suc pCopyTo) ?b @ filter (\<lambda>v. \<not> isnan v) (take (pEnd - Suc (Suc pCopyFrom)) (drop (Suc (Suc pCopyFrom)) ?b))
     \<and> drop pEnd buf' = drop pEnd ?b \<and> n \<le> pEnd"
        using "1.IH"(1)[of "Suc pCopyFrom" "buf ! Suc pCopyFrom"] lt nn False "1.prems" by simp
      moreover have "take (Suc pCopyTo) ?b = take pCopyTo buf @ [buf ! Suc pCopyFrom]"
        using lt by (simp add: take_Suc_conv_app_nth)
      moreover have "drop (Suc (Suc pCopyFrom)) ?b = drop (Suc (Suc pCopyFrom)) buf"
        using "1.prems" by simp
      moreover have "drop pEnd ?b = drop pEnd buf"
        using "1.prems" by simp
      ultimately show ?thesis
        using lt nn False by (subst RemoveMissingValues_skip_val.simps) (simp add: sl)
    qed
  qed
qed

lemma RemoveMissingValues_scan_correct:
  "pCopyFrom < pEnd \<Longrightarrow> pEnd \<le> length buf \<Longrightarrow>
   \<exists>buf' n. RemoveMissingValues_scan buf pCopyFrom pEnd = Some (buf', n)
     \<and> length buf' = length buf
     \<and> take n buf' = take pCopyFrom buf @ filter (\<lambda>v. \<not> isnan v) (take (pEnd - pCopyFrom) (drop pCopyFrom buf))
     \<and> drop pEnd buf' = drop pEnd buf \<and> n \<le> pEnd
     \<and> (n = pEnd \<longleftrightarrow> (\<forall>v \<in> set (take (pEnd - pCopyFrom) (drop pCopyFrom buf)). \<not> isnan v))"
proof (induction buf pCopyFrom pEnd rule: RemoveMissingValues_scan.induct)
  case (1 buf pCopyFrom pEnd)
  have sl: "take (pEnd - pCopyFrom) (drop pCopyFrom buf)
        = buf ! pCopyFrom # take (pEnd - Suc pCopyFrom) (drop (Suc pCopyFrom) buf)"
    using slice_Cons[of pCopyFrom pEnd buf] 1 by simp
  have flt: "length (filter (\<lambda>v. \<not> isnan v) (take (pEnd - Suc pCopyFrom) (drop (Suc pCopyFrom) buf))) \<le> pEnd - Suc pCopyFrom"
    by (rule order_trans[OF length_filter_le]) simp
  show ?case
  proof (cases "isnan (buf ! pCopyFrom)")
    case True
    obtain buf' n where r: "RemoveMissingValues_skip_val buf pCopyFrom pCopyFrom pEnd = Some (buf', n)"
      "length buf' = length buf"
      "take n buf' = take pCopyFrom buf @ filter (\<lambda>v. \<not> isnan v) (take (pEnd - Suc pCopyFrom) (drop (Suc pCopyFrom) buf))"
      "drop pEnd buf' = drop pEnd buf" "n \<le> pEnd"
      using RemoveMissingValues_skip_val_correct[of pCopyFrom pCopyFrom pEnd buf] 1 by auto
    have "length (take n buf') < pEnd"
      unfolding r(3) using 1 flt by simp
    then have "n \<noteq> pEnd" using r(2,5) 1 by auto
    then show ?thesis
      using r True 1 by (subst RemoveMissingValues_scan.simps) (simp add: sl)
  next
    case False
    show ?thesis
    proof (cases "pEnd = Suc pCopyFrom")
      case e: True
      then show ?thesis using False 1 by (subst RemoveMissingValues_scan.simps) (simp add: sl take_Suc_conv_app_nth)
    next
      case ne: False
      then have "\<exists>buf' n. RemoveMissingValues_scan buf (Suc pCopyFrom) pEnd = Some (buf', n)
     \<and> length buf' = length buf
     \<and> take n buf' = take (Suc pCopyFrom) buf @ filter (\<lambda>v. \<not> isnan v) (take (pEnd - Suc pCopyFrom) (drop (Suc pCopyFrom) buf))
     \<and> drop pEnd buf' = drop pEnd buf \<and> n \<le> pEnd
     \<and> (n = pEnd \<longleftrightarrow> (\<forall>v \<in> set (take (pEnd - Suc pCopyFrom) (drop (Suc pCopyFrom) buf)). \<not> isnan v))"
        using "1.IH"[of "buf ! pCopyFrom" "Suc pCopyFrom"] False "1.prems" by simp
      then show ?thesis
        using False ne 1 by (subst RemoveMissingValues_scan.simps) (auto simp add: sl take_Suc_conv_app_nth)
    qed
  qed
qed

lemma continue_working_cases:
  "continue_working pf env randomSeed mem pValuesEnd avgLength cMin cSplittingRanges = Some (st, mem') \<Longrightarrow>
     (st = 0 \<and> mem' = mem\<lparr>mem_countCutPoints := 0\<rparr>) \<or> (st = 1 \<and> mem' = mem)"
  by (auto simp: continue_working_def split: RandomStream_construction.splits if_splits option.splits)

lemma GenerateQuantileCutPoints_ranges_cases:
  "GenerateQuantileCutPoints_ranges pf env randomSeed mem pValuesEnd bMissing countMaximumBins cMin = Some (st, mem') \<Longrightarrow>
     (st = 0 \<and> mem' = mem\<lparr>mem_countCutPoints := 0\<rparr>) \<or> (st = 1 \<and> mem' = mem)"
  unfolding GenerateQuantileCutPoints_ranges_def
  by (auto simp: Let_def split: if_splits option.splits prod.splits dest: continue_working_cases)

text \<open>
  C1. Whenever \<^verbatim>\<open>GenerateQuantileCutPoints\<close> returns the status 0, \<^verbatim>\<open>*countCutPoints\<close> is 0
  after the call, whatever the platform, the environment, the seed, the values and the
  other parameters.
\<close>

theorem GenerateQuantileCutPoints_success_zero_cuts:
  "GenerateQuantileCutPoints pf env randomSeed countInstances countMaximumBins
     countMinimumInstancesPerBin mem = Some (0, mem') \<Longrightarrow> mem_countCutPoints mem' = 0"
  unfolding GenerateQuantileCutPoints_def
  by (auto simp: Let_def split: if_splits option.splits prod.splits dest!: GenerateQuantileCutPoints_ranges_cases)

lemma static_cast_size_t_id:
  "IsNumberConvertable pf x \<Longrightarrow> static_cast_size_t pf x = nat x"
  by (simp add: IsNumberConvertable_def static_cast_size_t_def)

lemma RemoveMissingValues_correct:
  assumes "1 \<le> n" "n \<le> length buf"
  shows "\<exists>buf' n'. RemoveMissingValues buf n = Some (buf', n')
     \<and> length buf' = length buf
     \<and> n' = length (filter (\<lambda>v. \<not> isnan v) (take n buf))
     \<and> take n' buf' = filter (\<lambda>v. \<not> isnan v) (take n buf)
     \<and> drop n buf' = drop n buf \<and> n' \<le> n
     \<and> (n' = n \<longleftrightarrow> (\<forall>v \<in> set (take n buf). \<not> isnan v))"
proof -
  obtain buf' n' where r: "RemoveMissingValues_scan buf 0 n = Some (buf', n')"
    "length buf' = length buf"
    "take n' buf' = filter (\<lambda>v. \<not> isnan v) (take n buf)"
    "drop n buf' = drop n buf" "n' \<le> n"
    "n' = n \<longleftrightarrow> (\<forall>v \<in> set (take n buf). \<not> isnan v)"
    using RemoveMissingValues_scan_correct[of 0 n buf] assms by auto
  have "length (take n' buf') = n'" using r(2,5) assms by simp
  then have "n' = length (filter (\<lambda>v. \<not> isnan v) (take n buf))" using r(3) by simp
  then show ?thesis using r by (simp add: RemoveMissingValues_def)
qed

lemma GenerateQuantileCutPoints_isMissing:
  assumes conv: "IsNumberConvertable pf (int n)" "IsNumberConvertable pf countMaximumBins"
      "IsNumberConvertable pf countMinimumInstancesPerBin"
    and n: "1 \<le> n"
    and rm: "RemoveMissingValues (mem_singleFeatureValues mem) n = Some (buf', n')"
    and run: "GenerateQuantileCutPoints pf env randomSeed (int n) countMaximumBins
       countMinimumInstancesPerBin mem = Some (st, mem')"
  shows "mem_isMissing mem' = (if n \<noteq> n' then EBM_TRUE else EBM_FALSE)"
  using run n unfolding GenerateQuantileCutPoints_def
  by (auto simp: Let_def conv static_cast_size_t_id rm split: if_splits dest!: GenerateQuantileCutPoints_ranges_cases)

theorem GenerateQuantileCutPoints_success_zero_cuts_witness:
  "GenerateQuantileCutPoints platform64 environment_ok 0 5 3 1
     (memory_of [Num 4, NaN, Num 1, Num 9, Num 2])
   = Some (0, \<lparr>mem_singleFeatureValues = [Num 1, Num 2, Num 4, Num 9, Num 2],
                mem_cutPointsLowerBoundInclusive = [], mem_countCutPoints = 0,
                mem_isMissing = 1, mem_minValue = Num 1, mem_maxValue = Num 9\<rparr>)
   \<and> mem_countCutPoints \<lparr>mem_singleFeatureValues = [Num 1, Num 2, Num 4, Num 9, Num 2],
                mem_cutPointsLowerBoundInclusive = [], mem_countCutPoints = 0,
                mem_isMissing = 1, mem_minValue = Num 1, mem_maxValue = Num (9::int)\<rparr> = 0"
proof -
  have run: "GenerateQuantileCutPoints platform64 environment_ok 0 5 3 1
     (memory_of [Num 4, NaN, Num 1, Num 9, Num 2])
   = Some (0, \<lparr>mem_singleFeatureValues = [Num 1, Num 2, Num 4, Num 9, Num 2],
                mem_cutPointsLowerBoundInclusive = [], mem_countCutPoints = 0,
                mem_isMissing = 1, mem_minValue = Num 1, mem_maxValue = Num 9\<rparr>)"
    by code_simp
  show ?thesis
    by (rule conjI[OF run GenerateQuantileCutPoints_success_zero_cuts[OF run]])
qed

text \<open>
  C9. A call with \<^verbatim>\<open>countInstances = 0\<close> whose other two counts fit \<^verbatim>\<open>size_t\<close> (the
  function's own size checks) returns 0 and writes zero cut points, the flag
  \<^verbatim>\<open>EBM_FALSE\<close>, and 0 as minimum and maximum; it writes nothing else.
\<close>

theorem GenerateQuantileCutPoints_no_instances:
  assumes "IsNumberConvertable pf countMaximumBins"
    and "IsNumberConvertable pf countMinimumInstancesPerBin"
  shows "GenerateQuantileCutPoints pf env randomSeed 0 countMaximumBins
           countMinimumInstancesPerBin mem
         = Some (0, mem\<lparr>mem_countCutPoints := 0, mem_isMissing := EBM_FALSE,
                        mem_minValue := Num 0, mem_maxValue := Num 0\<rparr>)"
  using assms
  by (simp add: GenerateQuantileCutPoints_def IsNumberConvertable_def static_cast_size_t_def)

theorem GenerateQuantileCutPoints_no_instances_witness:
  "IsNumberConvertable platform64 255 \<and> IsNumberConvertable platform64 0
   \<and> GenerateQuantileCutPoints platform64 environment_no_memory 42 0 255 0 (memory_of [])
     = Some (0, \<lparr>mem_singleFeatureValues = [], mem_cutPointsLowerBoundInclusive = [],
                  mem_countCutPoints = 0, mem_isMissing = 0, mem_minValue = Num 0,
                  mem_maxValue = Num 0\<rparr>)"
proof -
  have a: "IsNumberConvertable platform64 255" and b: "IsNumberConvertable platform64 0"
    by (simp_all add: IsNumberConvertable_def platform64_def)
  show ?thesis
    using a b GenerateQuantileCutPoints_no_instances[OF a b, of environment_no_memory 42 "memory_of []"]
    by (simp add: memory_of_def EBM_FALSE_def)
qed

text \<open>
  C10. A call with \<^verbatim>\<open>countInstances\<close> at least 1 whose values are all NaN, and whose three
  counts fit \<^verbatim>\<open>size_t\<close>, returns 0 and writes zero cut points, the flag \<^verbatim>\<open>EBM_TRUE\<close>, and 0
  as minimum and maximum.
\<close>

theorem GenerateQuantileCutPoints_all_missing:
  assumes conv: "IsNumberConvertable pf countInstances" "IsNumberConvertable pf countMaximumBins"
      "IsNumberConvertable pf countMinimumInstancesPerBin"
    and n: "1 \<le> countInstances" "nat countInstances \<le> length (mem_singleFeatureValues mem)"
    and nan: "\<forall>v \<in> set (take (nat countInstances) (mem_singleFeatureValues mem)). isnan v"
  shows "\<exists>mem'. GenerateQuantileCutPoints pf env randomSeed countInstances countMaximumBins
           countMinimumInstancesPerBin mem = Some (0, mem')
         \<and> mem_countCutPoints mem' = 0 \<and> mem_isMissing mem' = EBM_TRUE
         \<and> mem_minValue mem' = Num 0 \<and> mem_maxValue mem' = Num 0"
proof -
  let ?n = "nat countInstances"
  have n1: "1 \<le> ?n" using n by simp
  obtain buf' n' where r: "RemoveMissingValues (mem_singleFeatureValues mem) ?n = Some (buf', n')"
    "n' = length (filter (\<lambda>v. \<not> isnan v) (take ?n (mem_singleFeatureValues mem)))"
    using RemoveMissingValues_correct[OF n1 n(2)] by blast
  have "filter (\<lambda>v. \<not> isnan v) (take ?n (mem_singleFeatureValues mem)) = []"
    using nan by (simp add: filter_empty_conv)
  then have n0: "n' = 0" using r(2) by simp
  show ?thesis
    using n1 n(1)
    by (simp add: GenerateQuantileCutPoints_def conv static_cast_size_t_id r(1) n0 Let_def)
qed

theorem GenerateQuantileCutPoints_all_missing_witness:
  "GenerateQuantileCutPoints platform64 environment_ok 1 3 4 2 (memory_of [NaN, NaN, NaN])
   = Some (0, \<lparr>mem_singleFeatureValues = [NaN, NaN, NaN], mem_cutPointsLowerBoundInclusive = [],
                mem_countCutPoints = 0, mem_isMissing = 1, mem_minValue = Num 0,
                mem_maxValue = Num 0\<rparr>)"
proof -
  have c: "IsNumberConvertable platform64 3" "IsNumberConvertable platform64 4"
    "IsNumberConvertable platform64 2"
    by (simp_all add: IsNumberConvertable_def platform64_def)
  have run: "GenerateQuantileCutPoints platform64 environment_ok 1 3 4 2 (memory_of [NaN, NaN, NaN])
   = Some (0, \<lparr>mem_singleFeatureValues = [NaN, NaN, NaN], mem_cutPointsLowerBoundInclusive = [],
                mem_countCutPoints = 0, mem_isMissing = 1, mem_minValue = Num 0,
                mem_maxValue = Num 0\<rparr>)"
    by code_simp
  have "\<exists>mem'. GenerateQuantileCutPoints platform64 environment_ok 1 3 4 2
           (memory_of [NaN, NaN, NaN]) = Some (0, mem')
         \<and> mem_countCutPoints mem' = 0 \<and> mem_isMissing mem' = EBM_TRUE
         \<and> mem_minValue mem' = Num 0 \<and> mem_maxValue mem' = Num 0"
    by (rule GenerateQuantileCutPoints_all_missing[OF c]) (simp_all add: memory_of_def)
  then show ?thesis using run by simp
qed

text \<open>
  C3. On a buffer of which the first \<open>n\<close> entries are filtered, \<open>n\<close> at least 1,
  \<^verbatim>\<open>RemoveMissingValues\<close> returns, with the number \<open>n'\<close> of entries that are not NaN; the
  first \<open>n'\<close> entries of the buffer are then those entries in their original order, the
  entries from \<open>n\<close> on are untouched, and \<open>n' < n\<close> exactly when an entry was NaN. A call
  of \<^verbatim>\<open>GenerateQuantileCutPoints\<close> on \<open>n\<close> such values that passes its size checks and
  returns, with whatever status, leaves \<^verbatim>\<open>EBM_TRUE\<close> in \<^verbatim>\<open>*isMissing\<close> when \<open>n' < n\<close>
  and \<^verbatim>\<open>EBM_FALSE\<close> otherwise.
\<close>

theorem RemoveMissingValues_spec:
  fixes buf :: "'a::{linorder,zero} FloatEbmType list"
  assumes "1 \<le> n" and "n \<le> length buf"
  shows "\<exists>buf' n'. RemoveMissingValues buf n = Some (buf', n')
     \<and> length buf' = length buf
     \<and> n' = length (filter (\<lambda>v. \<not> isnan v) (take n buf))
     \<and> take n' buf' = filter (\<lambda>v. \<not> isnan v) (take n buf)
     \<and> drop n buf' = drop n buf
     \<and> (n' < n \<longleftrightarrow> (\<exists>v \<in> set (take n buf). isnan v))
     \<and> (\<forall>pf env randomSeed countMaximumBins countMinimumInstancesPerBin mem st mem'.
           mem_singleFeatureValues mem = buf
           \<and> IsNumberConvertable pf (int n) \<and> IsNumberConvertable pf countMaximumBins
           \<and> IsNumberConvertable pf countMinimumInstancesPerBin
           \<and> GenerateQuantileCutPoints pf env randomSeed (int n) countMaximumBins
                countMinimumInstancesPerBin mem = Some (st, mem')
           \<longrightarrow> mem_isMissing mem' = (if n' < n then EBM_TRUE else EBM_FALSE))"
proof -
  obtain buf' n' where r: "RemoveMissingValues buf n = Some (buf', n')"
     "length buf' = length buf"
     "n' = length (filter (\<lambda>v. \<not> isnan v) (take n buf))"
     "take n' buf' = filter (\<lambda>v. \<not> isnan v) (take n buf)"
     "drop n buf' = drop n buf" "n' \<le> n"
     "n' = n \<longleftrightarrow> (\<forall>v \<in> set (take n buf). \<not> isnan v)"
    using RemoveMissingValues_correct[OF assms] by blast
  have lt: "n' < n \<longleftrightarrow> (\<exists>v \<in> set (take n buf). isnan v)"
    using r(6,7) by auto
  have flag: "mem_isMissing mem' = (if n' < n then EBM_TRUE else EBM_FALSE)"
    if "mem_singleFeatureValues mem = buf" "IsNumberConvertable pf (int n)"
      "IsNumberConvertable pf countMaximumBins" "IsNumberConvertable pf countMinimumInstancesPerBin"
      "GenerateQuantileCutPoints pf env randomSeed (int n) countMaximumBins
                countMinimumInstancesPerBin mem = Some (st, mem')"
    for pf env randomSeed countMaximumBins countMinimumInstancesPerBin st mem'
      and mem :: "'a memory"
    using GenerateQuantileCutPoints_isMissing[OF that(2,3,4) assms(1) _ that(5), of buf' n']
      r(1,6) that(1) by auto
  show ?thesis
    using r(1,2,3,4,5) lt flag by blast
qed

theorem RemoveMissingValues_spec_witness:
  "RemoveMissingValues [Num 4, NaN, Num 1, NaN, Num (2::int), Num 8] 5
     = Some ([Num 4, Num 1, Num 2, NaN, Num 2, Num 8], 3)
   \<and> mem_isMissing (snd (the (GenerateQuantileCutPoints platform64 environment_no_memory 0 5 3 1
         (memory_of [Num 4, NaN, Num 1, NaN, Num 2, Num 8])))) = EBM_TRUE"
proof -
  let ?buf = "[Num 4, NaN, Num 1, NaN, Num (2::int), Num 8]"
  have rm: "RemoveMissingValues ?buf 5 = Some ([Num 4, Num 1, Num 2, NaN, Num 2, Num 8], 3)"
    by code_simp
  have run: "GenerateQuantileCutPoints platform64 environment_no_memory 0 (int 5) 3 1 (memory_of ?buf)
    = Some (1, \<lparr>mem_singleFeatureValues = [Num 1, Num 2, Num 4, NaN, Num 2, Num 8],
                mem_cutPointsLowerBoundInclusive = [], mem_countCutPoints = 7,
                mem_isMissing = 1, mem_minValue = Num 1, mem_maxValue = Num 4\<rparr>)"
    by code_simp
  have c: "IsNumberConvertable platform64 (int 5)" "IsNumberConvertable platform64 3"
    "IsNumberConvertable platform64 1"
    by (simp_all add: IsNumberConvertable_def platform64_def)
  have m: "mem_singleFeatureValues (memory_of ?buf) = ?buf" by (simp add: memory_of_def)
  from RemoveMissingValues_spec[of 5 ?buf]
  obtain buf' n' where r: "RemoveMissingValues ?buf 5 = Some (buf', n')"
    and f: "\<forall>pf env randomSeed countMaximumBins countMinimumInstancesPerBin mem st mem'.
           mem_singleFeatureValues mem = ?buf
           \<and> IsNumberConvertable pf (int 5) \<and> IsNumberConvertable pf countMaximumBins
           \<and> IsNumberConvertable pf countMinimumInstancesPerBin
           \<and> GenerateQuantileCutPoints pf env randomSeed (int 5) countMaximumBins
                countMinimumInstancesPerBin mem = Some (st, mem')
           \<longrightarrow> mem_isMissing mem' = (if n' < 5 then EBM_TRUE else EBM_FALSE)"
    by auto
  have n': "n' = 3" using r rm by simp
  have "mem_isMissing \<lparr>mem_singleFeatureValues = [Num 1, Num 2, Num 4, NaN, Num 2, Num 8],
                mem_cutPointsLowerBoundInclusive = [], mem_countCutPoints = 7,
                mem_isMissing = 1, mem_minValue = Num 1, mem_maxValue = Num (4::int)\<rparr>
        = (if n' < 5 then EBM_TRUE else EBM_FALSE)"
    using f m c run by blast
  then show ?thesis using rm run n' by simp
qed

lemma GenerateQuantileCutPoints_failure_cases:
  assumes run: "GenerateQuantileCutPoints pf env randomSeed countInstances countMaximumBins
       countMinimumInstancesPerBin mem = Some (st, mem')"
    and fail: "st \<noteq> 0"
  shows "st = 1 \<and>
     (if IsNumberConvertable pf countInstances \<and> IsNumberConvertable pf countMaximumBins
            \<and> IsNumberConvertable pf countMinimumInstancesPerBin
      then (case RemoveMissingValues (mem_singleFeatureValues mem) (nat countInstances) of
              None \<Rightarrow> False
            | Some (buf, n') \<Rightarrow> 0 < n'
              \<and> mem' = mem\<lparr>mem_singleFeatureValues := std_sort (take n' buf) @ drop n' buf,
                     mem_isMissing := (if nat countInstances \<noteq> n' then EBM_TRUE else EBM_FALSE),
                     mem_minValue := (std_sort (take n' buf) @ drop n' buf) ! 0,
                     mem_maxValue := (std_sort (take n' buf) @ drop n' buf) ! (n' - 1)\<rparr>)
      else mem' = mem)"
  using run fail unfolding GenerateQuantileCutPoints_def
  by (auto simp: Let_def static_cast_size_t_id split: if_splits option.splits prod.splits
      dest!: GenerateQuantileCutPoints_ranges_cases)

text \<open>
  C5, as amended. A call that returns a nonzero status returns 1, and has written neither
  \<^verbatim>\<open>*countCutPoints\<close> nor the cut point buffer: both hold what the caller left there.
  When one of the three counts does not fit \<^verbatim>\<open>size_t\<close>, the call has written nothing at
  all. Otherwise (the random stream, the multiplication, the allocation or an exception
  failed) at least one value is not NaN, the value buffer holds the values that are not
  NaN, sorted, \<^verbatim>\<open>*isMissing\<close> tells whether a value was NaN, and \<^verbatim>\<open>*minValue\<close> and
  \<^verbatim>\<open>*maxValue\<close> are the first and the last of the sorted values.
\<close>

theorem GenerateQuantileCutPoints_failure_state:
  assumes run: "GenerateQuantileCutPoints pf env randomSeed countInstances countMaximumBins
       countMinimumInstancesPerBin mem = Some (st, mem')"
    and fail: "st \<noteq> 0"
  shows "st = 1
     \<and> mem_countCutPoints mem' = mem_countCutPoints mem
     \<and> mem_cutPointsLowerBoundInclusive mem' = mem_cutPointsLowerBoundInclusive mem
     \<and> (if IsNumberConvertable pf countInstances \<and> IsNumberConvertable pf countMaximumBins
            \<and> IsNumberConvertable pf countMinimumInstancesPerBin
         then \<exists>buf n'. RemoveMissingValues (mem_singleFeatureValues mem) (nat countInstances)
                  = Some (buf, n') \<and> 0 < n'
              \<and> mem' = mem\<lparr>mem_singleFeatureValues := std_sort (take n' buf) @ drop n' buf,
                     mem_isMissing := (if nat countInstances \<noteq> n' then EBM_TRUE else EBM_FALSE),
                     mem_minValue := (std_sort (take n' buf) @ drop n' buf) ! 0,
                     mem_maxValue := (std_sort (take n' buf) @ drop n' buf) ! (n' - 1)\<rparr>
         else mem' = mem)"
  using GenerateQuantileCutPoints_failure_cases[OF run fail]
  by (auto split: option.splits if_splits)

text \<open>
  C4, as amended. Two calls on the same platform with the same seed, the same parameters
  and the same memory (values and prior contents of the outputs), in whatever two
  environments, leave the same value buffer, cut point buffer, \<^verbatim>\<open>*isMissing\<close>,
  \<^verbatim>\<open>*minValue\<close> and \<^verbatim>\<open>*maxValue\<close>; and when they return the same status, they leave the
  same memory altogether, \<^verbatim>\<open>*countCutPoints\<close> included. The status is not determined by
  the seed and the inputs: it depends on the allocator and the random stream.
\<close>

theorem GenerateQuantileCutPoints_deterministic:
  assumes r1: "GenerateQuantileCutPoints pf env1 randomSeed countInstances countMaximumBins
       countMinimumInstancesPerBin mem = Some (st1, mem1)"
    and r2: "GenerateQuantileCutPoints pf env2 randomSeed countInstances countMaximumBins
       countMinimumInstancesPerBin mem = Some (st2, mem2)"
  shows "mem_singleFeatureValues mem1 = mem_singleFeatureValues mem2
     \<and> mem_cutPointsLowerBoundInclusive mem1 = mem_cutPointsLowerBoundInclusive mem2
     \<and> mem_isMissing mem1 = mem_isMissing mem2
     \<and> mem_minValue mem1 = mem_minValue mem2
     \<and> mem_maxValue mem1 = mem_maxValue mem2
     \<and> (st1 = st2 \<longrightarrow> mem1 = mem2)"
  using r1 r2 unfolding GenerateQuantileCutPoints_def
  by (auto simp: Let_def static_cast_size_t_id split: if_splits option.splits prod.splits
      dest!: GenerateQuantileCutPoints_ranges_cases)

theorem GenerateQuantileCutPoints_deterministic_counterexample:
  "GenerateQuantileCutPoints platform64 environment_ok 0 2 2 1 (memory_of [Num 2, Num 1])
     = Some (0, \<lparr>mem_singleFeatureValues = [Num 1, Num 2], mem_cutPointsLowerBoundInclusive = [],
                  mem_countCutPoints = 0, mem_isMissing = 0, mem_minValue = Num 1,
                  mem_maxValue = Num 2\<rparr>)
   \<and> GenerateQuantileCutPoints platform64 environment_no_memory 0 2 2 1 (memory_of [Num 2, Num 1])
     = Some (1, \<lparr>mem_singleFeatureValues = [Num 1, Num 2], mem_cutPointsLowerBoundInclusive = [],
                  mem_countCutPoints = 7, mem_isMissing = 0, mem_minValue = Num 1,
                  mem_maxValue = Num 2\<rparr>)"
  by code_simp

theorem GenerateQuantileCutPoints_deterministic_witness:
  "mem_singleFeatureValues (snd (the (GenerateQuantileCutPoints platform64 environment_ok 3 4 2 1
        (memory_of [Num 5, NaN, Num 3, Num 4]))))
   = mem_singleFeatureValues (snd (the (GenerateQuantileCutPoints platform64 environment_no_memory
        3 4 2 1 (memory_of [Num 5, NaN, Num 3, Num 4]))))
   \<and> mem_minValue (snd (the (GenerateQuantileCutPoints platform64 environment_ok 3 4 2 1
        (memory_of [Num 5, NaN, Num 3, Num 4])))) = Num 3
   \<and> mem_minValue (snd (the (GenerateQuantileCutPoints platform64 environment_no_memory 3 4 2 1
        (memory_of [Num 5, NaN, Num 3, Num 4])))) = Num 3"
proof -
  have r1: "GenerateQuantileCutPoints platform64 environment_ok 3 4 2 1
        (memory_of [Num 5, NaN, Num 3, Num 4])
     = Some (0, \<lparr>mem_singleFeatureValues = [Num 3, Num 4, Num 5, Num 4],
                  mem_cutPointsLowerBoundInclusive = [], mem_countCutPoints = 0,
                  mem_isMissing = 1, mem_minValue = Num 3, mem_maxValue = Num 5\<rparr>)"
    by code_simp
  have r2: "GenerateQuantileCutPoints platform64 environment_no_memory 3 4 2 1
        (memory_of [Num 5, NaN, Num 3, Num 4])
     = Some (1, \<lparr>mem_singleFeatureValues = [Num 3, Num 4, Num 5, Num 4],
                  mem_cutPointsLowerBoundInclusive = [], mem_countCutPoints = 7,
                  mem_isMissing = 1, mem_minValue = Num 3, mem_maxValue = Num 5\<rparr>)"
    by code_simp
  show ?thesis
    using GenerateQuantileCutPoints_deterministic[OF r1 r2] r1 r2 by simp
qed

theorem GenerateQuantileCutPoints_failure_counterexample:
  "GenerateQuantileCutPoints platform64 environment_no_memory 0 2 2 1 (memory_of [Num 2, Num 1])
     = Some (1, \<lparr>mem_singleFeatureValues = [Num 1, Num 2], mem_cutPointsLowerBoundInclusive = [],
                  mem_countCutPoints = 7, mem_isMissing = 0, mem_minValue = Num 1,
                  mem_maxValue = Num 2\<rparr>)
   \<and> GenerateQuantileCutPoints platform64 environment_no_memory 0 2 2 1
       ((memory_of [Num 2, Num 1])\<lparr>mem_countCutPoints := 8\<rparr>)
     = Some (1, \<lparr>mem_singleFeatureValues = [Num 1, Num 2], mem_cutPointsLowerBoundInclusive = [],
                  mem_countCutPoints = 8, mem_isMissing = 0, mem_minValue = Num 1,
                  mem_maxValue = Num 2\<rparr>)
   \<and> GenerateQuantileCutPoints platform64 environment_ok 0 (- 1) 2 1 (memory_of [Num 2, Num 1])
     = Some (1, \<lparr>mem_singleFeatureValues = [Num 2, Num 1], mem_cutPointsLowerBoundInclusive = [],
                  mem_countCutPoints = 7, mem_isMissing = 7, mem_minValue = Num 7,
                  mem_maxValue = Num 7\<rparr>)"
  by code_simp

theorem GenerateQuantileCutPoints_failure_state_witness:
  "GenerateQuantileCutPoints platform64 environment_no_memory 0 3 2 1
      (memory_of [Num 6, NaN, Num 5])
     = Some (1, \<lparr>mem_singleFeatureValues = [Num 5, Num 6, Num 5],
                  mem_cutPointsLowerBoundInclusive = [], mem_countCutPoints = 7,
                  mem_isMissing = 1, mem_minValue = Num 5, mem_maxValue = Num 6\<rparr>)
   \<and> mem_countCutPoints \<lparr>mem_singleFeatureValues = [Num 5, Num 6, Num 5],
                  mem_cutPointsLowerBoundInclusive = [], mem_countCutPoints = 7,
                  mem_isMissing = 1, mem_minValue = Num 5, mem_maxValue = Num (6::int)\<rparr>
     = mem_countCutPoints (memory_of [Num 6, NaN, Num 5])"
proof -
  have run: "GenerateQuantileCutPoints platform64 environment_no_memory 0 3 2 1
      (memory_of [Num 6, NaN, Num 5])
     = Some (1, \<lparr>mem_singleFeatureValues = [Num 5, Num 6, Num 5],
                  mem_cutPointsLowerBoundInclusive = [], mem_countCutPoints = 7,
                  mem_isMissing = 1, mem_minValue = Num 5, mem_maxValue = Num 6\<rparr>)"
    by code_simp
  have ne: "(1::int) \<noteq> 0" by simp
  show ?thesis
    using GenerateQuantileCutPoints_failure_state[OF run ne] run by simp
qed

section \<open>Properties of Discretize\<close>

lemma Discretize_search_correct:
  fixes cs :: "'a::linorder list"
  assumes "sorted_wrt (<) cs"
    and "0 \<le> low" "low \<le> high" "high < int (length cs)"
    and "\<forall>j. int j < low \<longrightarrow> cs ! j \<le> v"
    and "\<forall>j. high < int j \<and> j < length cs \<longrightarrow> v < cs ! j"
  shows "\<exists>middle le. Discretize_search (map Num cs) (Num v) low high = Some (middle, le)
           \<and> 0 \<le> middle \<and> middle < int (length cs)
           \<and> (\<forall>j < length cs. cs ! j \<le> v \<longleftrightarrow> int j < (if le then middle + 1 else middle))"
  using assms
proof (induction "map Num cs" "Num v" low high rule: Discretize_search.induct)
  case (1 low high)
  let ?m = "(low + high) div 2"
  have m: "low \<le> ?m" "?m \<le> high" "0 \<le> ?m" "nat ?m < length cs" using 1(3,4,5) by auto
  have m': "?m < int (length cs)" using m by linarith
  have mono: "\<And>i j. i \<le> j \<Longrightarrow> j < length cs \<Longrightarrow> cs ! i \<le> cs ! j"
    using 1(2) by (metis le_neq_implies_less less_imp_le sorted_wrt_nth_less order_refl)
  show ?case
  proof (cases "cs ! nat ?m \<le> v")
    case True
    have below: "\<forall>j. int j < ?m + 1 \<longrightarrow> cs ! j \<le> v"
    proof (intro allI impI)
      fix j assume "int j < ?m + 1"
      then have "j \<le> nat ?m" by auto
      then show "cs ! j \<le> v" using mono[of j "nat ?m"] m True by auto
    qed
    show ?thesis
    proof (cases "?m + 1 \<le> high")
      case c: True
      have "\<exists>middle le. Discretize_search (map Num cs) (Num v) (?m + 1) high = Some (middle, le)
           \<and> 0 \<le> middle \<and> middle < int (length cs)
           \<and> (\<forall>j < length cs. cs ! j \<le> v \<longleftrightarrow> int j < (if le then middle + 1 else middle))"
        using "1.hyps"[OF refl _ refl refl refl _ "1.prems"(1)] m True c "1.prems" below
        by (simp add: Let_def)
      then show ?thesis
        using m True c by (subst Discretize_search.simps) (simp add: Let_def)
    next
      case c: False
      have "\<forall>j < length cs. cs ! j \<le> v \<longleftrightarrow> int j < ?m + 1"
        using below "1.prems"(6) c by (metis linorder_not_le order.strict_trans2)
      then show ?thesis
        using m m' True c by (subst Discretize_search.simps) (auto simp add: Let_def)
    qed
  next
    case False
    have above: "\<forall>j. ?m - 1 < int j \<and> j < length cs \<longrightarrow> v < cs ! j"
    proof (intro allI impI)
      fix j assume "?m - 1 < int j \<and> j < length cs"
      then have "nat ?m \<le> j" "j < length cs" by auto
      then show "v < cs ! j" using mono[of "nat ?m" j] False by auto
    qed
    show ?thesis
    proof (cases "low \<le> ?m - 1")
      case c: True
      have "\<exists>middle le. Discretize_search (map Num cs) (Num v) low (?m - 1) = Some (middle, le)
           \<and> 0 \<le> middle \<and> middle < int (length cs)
           \<and> (\<forall>j < length cs. cs ! j \<le> v \<longleftrightarrow> int j < (if le then middle + 1 else middle))"
        using "1.hyps"[OF refl _ refl refl refl _ "1.prems"(1)] m False c "1.prems" above
        by (simp add: Let_def)
      then show ?thesis
        using m False c by (subst Discretize_search.simps) (simp add: Let_def)
    next
      case c: False
      then have "?m = low" using m by simp
      then have "\<forall>j < length cs. cs ! j \<le> v \<longleftrightarrow> int j < ?m"
        using above "1.prems"(5) by (metis zle_diff1_eq linorder_not_le)
      then show ?thesis
        using m m' False c by (subst Discretize_search.simps) (auto simp add: Let_def)
    qed
  qed
qed

lemma filter_prefix:
  "k \<le> length xs \<Longrightarrow> (\<forall>j < length xs. P (xs ! j) \<longleftrightarrow> j < k) \<Longrightarrow> filter P xs = take k xs"
proof (induction xs arbitrary: k)
  case Nil
  then show ?case by simp
next
  case (Cons x xs)
  show ?case
  proof (cases k)
    case 0
    then have "\<forall>y \<in> set (x # xs). \<not> P y"
      using Cons.prems(2) by (metis in_set_conv_nth not_less_zero)
    then show ?thesis using 0 by (simp add: filter_empty_conv)
  next
    case (Suc k')
    have "P x" using Cons.prems(2) Suc by (metis length_greater_0_conv list.distinct(1) nth_Cons_0 zero_less_Suc)
    moreover have "filter P xs = take k' xs"
    proof (rule Cons.IH)
      show "k' \<le> length xs" using Cons.prems(1) Suc by simp
      show "\<forall>j<length xs. P (xs ! j) = (j < k')"
        using Cons.prems(2) Suc by (metis Suc_less_eq length_Cons nth_Cons_Suc)
    qed
    ultimately show ?thesis using Suc by simp
  qed
qed

lemma Discretize_loop_correct:
  assumes "\<forall>i. pValue \<le> i \<and> i < pValueEnd \<longrightarrow> body (vals ! i) = Some (g (vals ! i))"
    and "pValue < pValueEnd" "pValueEnd \<le> length vals" "pValueEnd \<le> length out"
  shows "\<exists>out'. Discretize_loop body vals pValue pValueEnd out = Some out'
           \<and> length out' = length out
           \<and> (\<forall>i. pValue \<le> i \<and> i < pValueEnd \<longrightarrow> out' ! i = g (vals ! i))
           \<and> (\<forall>i. (i < pValue \<or> pValueEnd \<le> i) \<and> i < length out \<longrightarrow> out' ! i = out ! i)"
  using assms
proof (induction body vals pValue pValueEnd out rule: Discretize_loop.induct)
  case (1 body vals pValue pValueEnd out)
  have b: "body (vals ! pValue) = Some (g (vals ! pValue))" using "1.prems" by simp
  have inb: "pValue < length vals" "pValue < length out" using "1.prems" by simp_all
  show ?case
  proof (cases "pValueEnd = Suc pValue")
    case True
    have r: "Discretize_loop body vals pValue pValueEnd out = Some (out[pValue := g (vals ! pValue)])"
      using True b inb by (subst Discretize_loop.simps) (simp add: Let_def)
    show ?thesis
    proof (intro exI[of _ "out[pValue := g (vals ! pValue)]"] conjI allI impI)
      show "Discretize_loop body vals pValue pValueEnd out = Some (out[pValue := g (vals ! pValue)])"
        by (rule r)
      show "length (out[pValue := g (vals ! pValue)]) = length out" by simp
    next
      fix i assume "pValue \<le> i \<and> i < pValueEnd"
      then have "i = pValue" using True by simp
      then show "out[pValue := g (vals ! pValue)] ! i = g (vals ! i)" using inb by simp
    next
      fix i assume "(i < pValue \<or> pValueEnd \<le> i) \<and> i < length out"
      then have "i \<noteq> pValue" using True by auto
      then show "out[pValue := g (vals ! pValue)] ! i = out ! i" by simp
    qed
  next
    case False
    let ?out = "out[pValue := g (vals ! pValue)]"
    have "\<exists>out'. Discretize_loop body vals (Suc pValue) pValueEnd ?out = Some out'
           \<and> length out' = length ?out
           \<and> (\<forall>i. Suc pValue \<le> i \<and> i < pValueEnd \<longrightarrow> out' ! i = g (vals ! i))
           \<and> (\<forall>i. (i < Suc pValue \<or> pValueEnd \<le> i) \<and> i < length ?out \<longrightarrow> out' ! i = ?out ! i)"
      using "1.IH"[OF _ b refl refl] False inb "1.prems" by simp
    then obtain out' where o: "Discretize_loop body vals (Suc pValue) pValueEnd ?out = Some out'"
      "length out' = length out"
      "\<forall>i. Suc pValue \<le> i \<and> i < pValueEnd \<longrightarrow> out' ! i = g (vals ! i)"
      "\<forall>i. (i < Suc pValue \<or> pValueEnd \<le> i) \<and> i < length out \<longrightarrow> out' ! i = ?out ! i"
      by auto
    have at: "out' ! pValue = g (vals ! pValue)" using o(4) inb by simp
    have "\<forall>i. pValue \<le> i \<and> i < pValueEnd \<longrightarrow> out' ! i = g (vals ! i)"
      using o(3) at by (metis le_neq_implies_less Suc_leI)
    moreover have "\<forall>i. (i < pValue \<or> pValueEnd \<le> i) \<and> i < length out \<longrightarrow> out' ! i = out ! i"
      using o(4) "1.prems"(2) by (metis less_Suc_eq nth_list_update_neq not_less less_irrefl)
    ultimately show ?thesis
      using b inb False o(1,2) by (subst Discretize_loop.simps) (simp add: Let_def)
  qed
qed

lemma Discretize_search_count:
  fixes cs :: "'a::linorder list"
  assumes "sorted_wrt (<) cs" and "1 \<le> length cs"
  shows "\<exists>middle le. Discretize_search (map Num cs) (Num v) 0 (int (length cs) - 1) = Some (middle, le)
           \<and> (if le then middle + 1 else middle) = int (length (filter (\<lambda>c. c \<le> v) cs))
           \<and> (\<forall>j < length cs. cs ! j \<le> v \<longleftrightarrow> j < length (filter (\<lambda>c. c \<le> v) cs))"
proof -
  obtain middle le where s: "Discretize_search (map Num cs) (Num v) 0 (int (length cs) - 1) = Some (middle, le)"
    "0 \<le> middle" "middle < int (length cs)"
    "\<forall>j < length cs. cs ! j \<le> v \<longleftrightarrow> int j < (if le then middle + 1 else middle)"
  proof -
    have a: "(0::int) \<le> 0" "0 \<le> int (length cs) - 1" "int (length cs) - 1 < int (length cs)"
      using assms(2) by (cases cs; simp)+
    have b: "\<forall>j. int j < 0 \<longrightarrow> cs ! j \<le> v" by simp
    have c: "\<forall>j. int (length cs) - 1 < int j \<and> j < length cs \<longrightarrow> v < cs ! j" by auto
    from Discretize_search_correct[OF assms(1) a b c] that show thesis by blast
  qed
  define r where "r = nat (if le then middle + 1 else middle)"
  have r: "(if le then middle + 1 else middle) = int r" "r \<le> length cs"
    using s(2,3) by (auto simp: r_def)
  have iff: "\<forall>j < length cs. cs ! j \<le> v \<longleftrightarrow> j < r" using s(4) unfolding r(1) by simp
  have "filter (\<lambda>c. c \<le> v) cs = take r cs" by (rule filter_prefix[OF r(2) iff])
  then have len: "length (filter (\<lambda>c. c \<le> v) cs) = r" using r(2) by simp
  show ?thesis using s(1) r(1) iff len by auto
qed

text \<open>
  C2. For strictly increasing cut points \<open>cs\<close>, at least one and fewer than
  \<open>2 ^ (size_bits - 1)\<close>, and at least one value, \<^verbatim>\<open>Discretize\<close> returns and writes one index
  for each value, leaving the rest of \<^verbatim>\<open>singleFeatureDiscretized\<close> as it was. A value \<open>v\<close>
  that is not NaN gets the number of cut points that are at most \<open>v\<close>, plus one when
  \<^verbatim>\<open>isMissing\<close> is not \<^verbatim>\<open>EBM_FALSE\<close>; NaN gets 0 when \<^verbatim>\<open>isMissing\<close> is not \<^verbatim>\<open>EBM_FALSE\<close> and
  \<open>-1\<close> when it is. That number \<open>k\<close> is the one index with \<open>cs ! (k - 1) \<le> v < cs ! k\<close>: the
  cut points at most \<open>v\<close> are exactly those at the positions below \<open>k\<close>.
\<close>

theorem Discretize_spec:
  fixes cs :: "'a::linorder list"
  assumes sorted: "sorted_wrt (<) cs"
    and cuts: "1 \<le> length cs" "length cs < 2 ^ (size_bits pf - 1)"
    and vals: "1 \<le> length vals" "length vals < 2 ^ size_bits pf" "length vals \<le> length out"
  shows "\<exists>out'. Discretize pf isMissing (int (length cs)) (map Num cs) (int (length vals)) vals out
             = Some out'
           \<and> length out' = length out
           \<and> (\<forall>i < length vals. out' ! i =
                 (case vals ! i of
                    NaN \<Rightarrow> (if isMissing \<noteq> EBM_FALSE then 0 else - 1)
                  | Num v \<Rightarrow> int (length (filter (\<lambda>c. c \<le> v) cs))
                             + (if isMissing \<noteq> EBM_FALSE then 1 else 0)))
           \<and> (\<forall>i. length vals \<le> i \<and> i < length out \<longrightarrow> out' ! i = out ! i)
           \<and> (\<forall>v. \<forall>j < length cs. cs ! j \<le> v \<longleftrightarrow> j < length (filter (\<lambda>c. c \<le> v) cs))"
proof -
  let ?w = "size_bits pf"
  define g where "g = (\<lambda>val :: 'a FloatEbmType. case val of
                    NaN \<Rightarrow> (if isMissing \<noteq> EBM_FALSE then 0 else - 1 :: int)
                  | Num v \<Rightarrow> int (length (filter (\<lambda>c. c \<le> v) cs))
                             + (if isMissing \<noteq> EBM_FALSE then 1 else 0))"
  have "(2::nat) ^ (?w - 1) \<le> 2 ^ ?w" by (rule power_increasing) simp_all
  then have lt: "length cs < 2 ^ ?w" using cuts(2) by (rule less_le_trans[rotated])
  have "int (length cs) < 2 ^ ?w" using lt by (metis of_nat_less_iff of_nat_numeral of_nat_power)
  then have cc: "static_cast_size_t pf (int (length cs)) = length cs"
    by (simp add: static_cast_size_t_def)
  have "int (length vals) < 2 ^ ?w" using vals(2) by (metis of_nat_less_iff of_nat_numeral of_nat_power)
  then have ci: "static_cast_size_t pf (int (length vals)) = length vals"
    by (simp add: static_cast_size_t_def)
  have hs: "static_cast_ptrdiff_t pf (length cs - 1) = int (length cs) - 1"
  proof -
    have "length cs - 1 < 2 ^ (size_bits pf - 1)" using cuts(2) by (rule le_less_trans[rotated]) simp
    moreover have "int (length cs - 1) = int (length cs) - 1" using cuts(1) by simp
    ultimately show ?thesis by (simp only: static_cast_ptrdiff_t_def if_True)
  qed
  have wm: "Discretize_with_missing (map Num cs) (int (length cs) - 1) val
        = Some (case val of NaN \<Rightarrow> 0 | Num v \<Rightarrow> int (length (filter (\<lambda>c. c \<le> v) cs)) + 1)" for val
  proof (cases val)
    case NaN
    then show ?thesis by (simp add: Discretize_with_missing_def)
  next
    case (Num v)
    then show ?thesis
      using Discretize_search_count[OF sorted cuts(1), of v]
      by (auto simp: Discretize_with_missing_def)
  qed
  have wo: "Discretize_without_missing (map Num cs) (int (length cs) - 1) val
        = Some (case val of NaN \<Rightarrow> - 1 | Num v \<Rightarrow> int (length (filter (\<lambda>c. c \<le> v) cs)))" for val
  proof (cases val)
    case NaN
    then show ?thesis by (simp add: Discretize_without_missing_def)
  next
    case (Num v)
    then show ?thesis
      using Discretize_search_count[OF sorted cuts(1), of v]
      by (auto simp: Discretize_without_missing_def)
  qed
  define body where "body = (if EBM_FALSE \<noteq> isMissing
      then Discretize_with_missing (map Num cs) (int (length cs) - 1)
      else Discretize_without_missing (map Num cs) (int (length cs) - 1))"
  have bg: "body val = Some (g val)" for val
    unfolding body_def g_def by (cases val) (auto simp: wm wo)
  have D: "Discretize pf isMissing (int (length cs)) (map Num cs) (int (length vals)) vals out
      = Discretize_loop body vals 0 (length vals) out"
  proof -
    have ne: "cs \<noteq> []" "vals \<noteq> []" using cuts(1) vals(1) by auto
    have hs': "static_cast_ptrdiff_t pf (length cs - Suc 0) = int (length cs) - 1"
      using hs by simp
    show ?thesis by (simp add: Discretize_def cc ci hs' ne Let_def body_def)
  qed
  obtain out' where o: "Discretize_loop body vals 0 (length vals) out = Some out'"
    "length out' = length out"
    "\<forall>i. 0 \<le> i \<and> i < length vals \<longrightarrow> out' ! i = g (vals ! i)"
    "\<forall>i. (i < 0 \<or> length vals \<le> i) \<and> i < length out \<longrightarrow> out' ! i = out ! i"
  proof -
    have p: "\<forall>i. 0 \<le> i \<and> i < length vals \<longrightarrow> body (vals ! i) = Some (g (vals ! i))"
      using bg by simp
    have q: "0 < length vals" "length vals \<le> length vals" using vals(1) by (cases vals; simp)+
    from Discretize_loop_correct[OF p q vals(3)] that show thesis by blast
  qed
  have idx: "\<forall>v. \<forall>j < length cs. cs ! j \<le> v \<longleftrightarrow> j < length (filter (\<lambda>c. c \<le> v) cs)"
    using Discretize_search_count[OF sorted cuts(1)] by blast
  show ?thesis
    unfolding D using o idx by (auto simp: g_def)
qed

theorem Discretize_spec_witness:
  "Discretize platform64 EBM_TRUE 3 (map Num [10, 20, 30 :: int]) 4
      [Num 5, Num 10, NaN, Num 30] [9, 9, 9, 9, 9] = Some [1, 2, 0, 4, 9]
   \<and> Discretize platform64 EBM_FALSE 3 (map Num [10, 20, 30 :: int]) 4
      [Num 5, Num 10, NaN, Num 30] [9, 9, 9, 9, 9] = Some [0, 1, - 1, 3, 9]"
proof -
  have s: "sorted_wrt (<) [10, 20, 30 :: int]" by simp
  have run1: "Discretize platform64 EBM_TRUE 3 (map Num [10, 20, 30 :: int]) 4
      [Num 5, Num 10, NaN, Num 30] [9, 9, 9, 9, 9] = Some [1, 2, 0, 4, 9]"
    by code_simp
  have run2: "Discretize platform64 EBM_FALSE 3 (map Num [10, 20, 30 :: int]) 4
      [Num 5, Num 10, NaN, Num 30] [9, 9, 9, 9, 9] = Some [0, 1, - 1, 3, 9]"
    by code_simp
  obtain out' where "Discretize platform64 EBM_TRUE 3 (map Num [10, 20, 30 :: int]) 4
      [Num 5, Num 10, NaN, Num 30] [9, 9, 9, 9, 9] = Some out'" "length out' = 5"
    using Discretize_spec[OF s, where pf = platform64 and isMissing = EBM_TRUE
        and vals = "[Num 5, Num 10, NaN, Num 30]" and out = "[9, 9, 9, 9, 9]"]
    by (auto simp: platform64_def)
  then show ?thesis using run1 run2 by simp
qed

section \<open>Properties of the two sorts\<close>

lemma map_key_swap:
  assumes "i < length xs" "j < length xs" "key (xs ! i) = key (xs ! j)"
  shows "map key (xs[i := xs ! j, j := xs ! i]) = map key xs"
  using assms by (simp add: map_update list_update_same_conv nth_list_update) 
    (metis list_update_id nth_map)

lemma shuffle_equal_range_correct:
  assumes "\<forall>rs n. 1 \<le> n \<longrightarrow> fst (Next rs n) < n"
    and "1 \<le> c" and "iStart + c \<le> length ap"
    and "\<forall>i. iStart \<le> i \<and> i < iStart + c \<longrightarrow> key (ap ! i) = k"
  shows "\<exists>rs' ap'. shuffle_equal_range Next rs ap iStart c = Some (rs', ap')
           \<and> mset ap' = mset ap \<and> map key ap' = map key ap"
  using assms
proof (induction Next rs ap iStart c rule: shuffle_equal_range.induct)
  case (1 Next rs ap iStart c)
  show ?case
  proof (cases "c = 1")
    case True
    then show ?thesis by (subst shuffle_equal_range.simps) simp
  next
    case False
    obtain iSwap rs1 where n: "Next rs c = (iSwap, rs1)" by (cases "Next rs c")
    have sw: "iSwap < c" using "1.prems"(1,2) n by (metis fst_conv)
    let ?ap = "ap[iStart := ap ! (iStart + iSwap), iStart + iSwap := ap ! iStart]"
    have inb: "iStart < length ap" "iStart + iSwap < length ap"
      using sw "1.prems"(2,3) by simp_all
    have keq: "key (ap ! iStart) = key (ap ! (iStart + iSwap))"
      using "1.prems"(4) sw "1.prems"(2) by simp
    have mk: "map key ?ap = map key ap"
      using map_key_swap[OF inb keq] by simp
    have ms: "mset ?ap = mset ap"
      using mset_swap[OF inb(2) inb(1)] by simp
    have keys: "\<forall>i. iStart + 1 \<le> i \<and> i < iStart + 1 + (c - 1) \<longrightarrow> key (?ap ! i) = k"
    proof (intro allI impI)
      fix i assume i: "iStart + 1 \<le> i \<and> i < iStart + 1 + (c - 1)"
      then have il: "i < length ap" "iStart \<le> i" "i < iStart + c" using "1.prems"(2,3) by auto
      have "key (?ap ! i) = map key ?ap ! i" using il by simp
      also have "\<dots> = key (ap ! i)" unfolding mk using il by simp
      finally show "key (?ap ! i) = k" using "1.prems"(4) il by simp
    qed
    have "\<exists>rs' ap'. shuffle_equal_range Next rs1 ?ap (iStart + 1) (c - 1) = Some (rs', ap')
           \<and> mset ap' = mset ?ap \<and> map key ap' = map key ?ap"
    proof -
      have ne1: "1 \<noteq> c" using False by simp
      have ne0: "c \<noteq> 0" using "1.prems"(2) by simp
      have c1: "1 \<le> c - 1" using False "1.prems"(2) by simp
      have len: "iStart + 1 + (c - 1) \<le> length ?ap" using "1.prems"(2,3) by simp
      show ?thesis
        by (rule "1.IH"[OF ne1 ne0 refl n[symmetric] inb(2) refl refl "1.prems"(1) c1 len keys])
    qed
    then show ?thesis
      using False "1.prems"(2) inb n mk ms
      by (subst shuffle_equal_range.simps) (auto simp: Let_def)
  qed
qed

lemma shuffle_equal_ranges_correct:
  assumes "\<forall>rs n. 1 \<le> n \<longrightarrow> fst (Next rs n) < n"
    and "iStart < i" and "i \<le> n" and "n \<le> length ap"
    and "\<forall>j. iStart \<le> j \<and> j < i \<longrightarrow> key (ap ! j) = cItems"
  shows "\<exists>rs' ap' iS. shuffle_equal_ranges key Next rs ap n iStart cItems i = Some (rs', ap', iS)
           \<and> mset ap' = mset ap \<and> map key ap' = map key ap \<and> iS < n
           \<and> (\<forall>j. iS \<le> j \<and> j < n \<longrightarrow> key (ap' ! j) = key (ap' ! iS))"
  using assms
proof (induction key Next rs ap n iStart cItems i rule: shuffle_equal_ranges.induct)
  case (1 key Next rs ap n iStart cItems i)
  show ?case
  proof (cases "i < n")
    case False
    then have "i = n" using "1.prems"(3) by simp
    then show ?thesis
      using "1.prems"(2,5) by (subst shuffle_equal_ranges.simps) auto
  next
    case True
    then have il: "i < length ap" using "1.prems"(4) by simp
    show ?thesis
    proof (cases "cItems \<noteq> key (ap ! i)")
      case ne: True
      have blk: "\<forall>j. iStart \<le> j \<and> j < iStart + (i - iStart) \<longrightarrow> key (ap ! j) = cItems"
        using "1.prems"(2,5) by simp
      obtain rs1 ap1 where sh: "shuffle_equal_range Next rs ap iStart (i - iStart) = Some (rs1, ap1)"
        "mset ap1 = mset ap" "map key ap1 = map key ap"
      proof -
        have c: "1 \<le> i - iStart" "iStart + (i - iStart) \<le> length ap"
          using "1.prems"(2) il by simp_all
        from shuffle_equal_range_correct[OF "1.prems"(1) c blk, of rs] that show thesis by blast
      qed
      have len1: "length ap1 = length ap" using sh(3) by (metis length_map)
      have k1: "key (ap1 ! j) = key (ap ! j)" if "j < length ap" for j
        using sh(3) that len1 by (metis nth_map)
      have blk1: "\<forall>j. i \<le> j \<and> j < i + 1 \<longrightarrow> key (ap1 ! j) = key (ap ! i)"
        using k1 il by (metis add.commute le_antisym less_Suc_eq_le plus_1_eq_Suc)
      have "\<exists>rs' ap' iS. shuffle_equal_ranges key Next rs1 ap1 n i (key (ap ! i)) (i + 1) = Some (rs', ap', iS)
           \<and> mset ap' = mset ap1 \<and> map key ap' = map key ap1 \<and> iS < n
           \<and> (\<forall>j. iS \<le> j \<and> j < n \<longrightarrow> key (ap' ! j) = key (ap' ! iS))"
      proof (rule "1.IH"(1)[OF True il refl ne sh(1) refl "1.prems"(1) _ _ _ blk1])
        show "i < i + 1" by simp
        show "i + 1 \<le> n" using True by simp
        show "n \<le> length ap1" using "1.prems"(4) len1 by simp
      qed
      then show ?thesis
        using True il ne sh by (subst shuffle_equal_ranges.simps) (auto simp: Let_def)
    next
      case eq: False
      have blk2: "\<forall>j. iStart \<le> j \<and> j < i + 1 \<longrightarrow> key (ap ! j) = cItems"
        using "1.prems"(5) eq by (metis add.commute less_Suc_eq plus_1_eq_Suc)
      have "\<exists>rs' ap' iS. shuffle_equal_ranges key Next rs ap n iStart cItems (i + 1) = Some (rs', ap', iS)
           \<and> mset ap' = mset ap \<and> map key ap' = map key ap \<and> iS < n
           \<and> (\<forall>j. iS \<le> j \<and> j < n \<longrightarrow> key (ap' ! j) = key (ap' ! iS))"
      proof (rule "1.IH"(2)[OF True il refl eq "1.prems"(1) _ _ "1.prems"(4) blk2])
        show "iStart < i + 1" using "1.prems"(2) by simp
        show "i + 1 \<le> n" using True by simp
      qed
      then show ?thesis
        using True il eq by (subst shuffle_equal_ranges.simps) (auto simp: Let_def)
    qed
  qed
qed

lemma shuffle_equal_range_zero:
  assumes "\<forall>rs n. fst (Next rs n) = 0" and "1 \<le> c" and "iStart + c \<le> length ap"
  shows "\<exists>rs'. shuffle_equal_range Next rs ap iStart c = Some (rs', ap)"
  using assms
proof (induction Next rs ap iStart c rule: shuffle_equal_range.induct)
  case (1 Next rs ap iStart c)
  show ?case
  proof (cases "c = 1")
    case True
    then show ?thesis by (subst shuffle_equal_range.simps) simp
  next
    case False
    obtain rs1 where n: "Next rs c = (0, rs1)" using "1.prems"(1) by (metis prod.collapse)
    have inb: "iStart + 0 < length ap" using "1.prems"(2,3) by simp
    have same: "ap[iStart := ap ! (iStart + 0), iStart + 0 := ap ! iStart] = ap" by simp
    have ne1: "1 \<noteq> c" using False by simp
    have ne0: "c \<noteq> 0" using "1.prems"(2) by simp
    have c1: "1 \<le> c - 1" using False "1.prems"(2) by simp
    have len: "iStart + 1 + (c - 1)
        \<le> length (ap[iStart := ap ! (iStart + 0), iStart + 0 := ap ! iStart])"
      using "1.prems"(2,3) by simp
    have "\<exists>rs'. shuffle_equal_range Next rs1
             (ap[iStart := ap ! (iStart + 0), iStart + 0 := ap ! iStart]) (iStart + 1) (c - 1)
           = Some (rs', ap[iStart := ap ! (iStart + 0), iStart + 0 := ap ! iStart])"
      by (rule "1.IH"[OF ne1 ne0 refl n[symmetric] inb refl refl "1.prems"(1) c1 len])
    then show ?thesis
      using False "1.prems"(2) inb n
      by (subst shuffle_equal_range.simps) (auto simp: Let_def)
  qed
qed

lemma shuffle_equal_ranges_zero:
  assumes "\<forall>rs n. fst (Next rs n) = 0"
    and "iStart < i" and "i \<le> n" and "n \<le> length ap"
  shows "\<exists>rs' iS. shuffle_equal_ranges key Next rs ap n iStart cItems i = Some (rs', ap, iS)
           \<and> iS < n"
  using assms
proof (induction key Next rs ap n iStart cItems i rule: shuffle_equal_ranges.induct)
  case (1 key Next rs ap n iStart cItems i)
  show ?case
  proof (cases "i < n")
    case False
    then have "i = n" using "1.prems"(3) by simp
    then show ?thesis
      using "1.prems"(2) by (subst shuffle_equal_ranges.simps) auto
  next
    case True
    then have il: "i < length ap" using "1.prems"(4) by simp
    show ?thesis
    proof (cases "cItems \<noteq> key (ap ! i)")
      case ne: True
      have c: "1 \<le> i - iStart" "iStart + (i - iStart) \<le> length ap"
        using "1.prems"(2) il by simp_all
      obtain rs1 where sh: "shuffle_equal_range Next rs ap iStart (i - iStart) = Some (rs1, ap)"
        using shuffle_equal_range_zero[OF "1.prems"(1) c, of rs] by blast
      have "\<exists>rs' iS. shuffle_equal_ranges key Next rs1 ap n i (key (ap ! i)) (i + 1)
              = Some (rs', ap, iS) \<and> iS < n"
      proof (rule "1.IH"(1)[OF True il refl ne sh refl "1.prems"(1) _ _ "1.prems"(4)])
        show "i < i + 1" by simp
        show "i + 1 \<le> n" using True by simp
      qed
      then show ?thesis
        using True il ne sh by (subst shuffle_equal_ranges.simps) (auto simp: Let_def)
    next
      case eq: False
      have "\<exists>rs' iS. shuffle_equal_ranges key Next rs ap n iStart cItems (i + 1)
              = Some (rs', ap, iS) \<and> iS < n"
      proof (rule "1.IH"(2)[OF True il refl eq "1.prems"(1) _ _ "1.prems"(4)])
        show "iStart < i + 1" using "1.prems"(2) by simp
        show "i + 1 \<le> n" using True by simp
      qed
      then show ?thesis
        using True il eq by (subst shuffle_equal_ranges.simps) (auto simp: Let_def)
    qed
  qed
qed

lemma mset_std_sort_insert: "mset (std_sort_insert precedes x ys) = add_mset x (mset ys)"
  by (induction ys) simp_all

lemma mset_std_sort_by: "mset (std_sort_by precedes xs) = mset xs"
  by (induction xs) (simp_all add: std_sort_by_def mset_std_sort_insert)

lemma set_std_sort_insert: "set (std_sort_insert precedes x ys) = insert x (set ys)"
  by (induction ys) auto

lemma sorted_std_sort_insert:
  assumes asym: "\<And>a b. precedes a b \<Longrightarrow> \<not> precedes b a"
    and negtrans: "\<And>a b c. \<not> precedes a b \<Longrightarrow> \<not> precedes b c \<Longrightarrow> \<not> precedes a c"
    and "sorted_wrt (\<lambda>a b. \<not> precedes b a) ys"
  shows "sorted_wrt (\<lambda>a b. \<not> precedes b a) (std_sort_insert precedes x ys)"
  using assms(3)
proof (induction ys)
  case Nil
  then show ?case by simp
next
  case (Cons y ys)
  show ?case
  proof (cases "precedes y x")
    case True
    then show ?thesis
      using Cons asym by (auto simp: set_std_sort_insert)
  next
    case False
    have "\<not> precedes z x" if "z \<in> set ys" for z
      using Cons.prems that negtrans[of z y x] False by auto
    then show ?thesis using False Cons.prems by auto
  qed
qed

lemma sorted_std_sort_by:
  assumes asym: "\<And>a b. precedes a b \<Longrightarrow> \<not> precedes b a"
    and negtrans: "\<And>a b c. \<not> precedes a b \<Longrightarrow> \<not> precedes b c \<Longrightarrow> \<not> precedes a c"
  shows "sorted_wrt (\<lambda>a b. \<not> precedes b a) (std_sort_by precedes xs)"
proof (induction xs)
  case Nil
  then show ?case by (simp add: std_sort_by_def)
next
  case (Cons x xs)
  have "std_sort_by precedes (x # xs) = std_sort_insert precedes x (std_sort_by precedes xs)"
    by (simp add: std_sort_by_def)
  then show ?case
    using sorted_std_sort_insert[of precedes "std_sort_by precedes xs" x, OF asym negtrans Cons]
    by simp
qed

lemma sort_and_shuffle_correct:
  assumes "\<forall>rs n. 1 \<le> n \<longrightarrow> fst (Next rs n) < n" and "1 \<le> length ap"
  shows "\<exists>rs' ap'. sort_and_shuffle precedes key Next rs (length ap) ap = Some (rs', ap')
           \<and> mset ap' = mset ap
           \<and> map key ap' = map key (std_sort_by precedes ap)"
proof -
  let ?pre = "std_sort_by precedes ap"
  have "size (mset ?pre) = size (mset ap)" by (simp only: mset_std_sort_by)
  then have len: "length ?pre = length ap" by (simp only: size_mset)
  have b: "\<forall>j. 0 \<le> j \<and> j < 1 \<longrightarrow> key (?pre ! j) = key (?pre ! 0)" by simp
  obtain rs1 ap1 iS where r: "shuffle_equal_ranges key Next rs ?pre (length ap) 0 (key (?pre ! 0)) 1
       = Some (rs1, ap1, iS)" "mset ap1 = mset ?pre" "map key ap1 = map key ?pre" "iS < length ap"
      "\<forall>j. iS \<le> j \<and> j < length ap \<longrightarrow> key (ap1 ! j) = key (ap1 ! iS)"
  proof -
    have a: "(0::nat) < 1" "1 \<le> length ap" "length ap \<le> length ?pre"
      using assms(2) len by simp_all
    from shuffle_equal_ranges_correct[where key = key and Next = Next and ap = "?pre"
        and cItems = "key (?pre ! 0)" and iStart = 0 and i = 1 and n = "length ap" and rs = rs,
        OF assms(1) a b]
    show thesis
      apply (elim exE conjE)
      apply (rule that)
          apply assumption+
      done
  qed
  have "length (map key ap1) = length (map key ?pre)" by (simp only: r(3))
  then have len1: "length ap1 = length ap" using len by (simp only: length_map)
  have blk: "\<forall>j. iS \<le> j \<and> j < iS + (length ap - iS) \<longrightarrow> key (ap1 ! j) = key (ap1 ! iS)"
  proof (intro allI impI)
    fix j assume "iS \<le> j \<and> j < iS + (length ap - iS)"
    then have "iS \<le> j \<and> j < length ap" using r(4) by simp
    then show "key (ap1 ! j) = key (ap1 ! iS)" using r(5) by blast
  qed
  obtain rs2 ap2 where s: "shuffle_equal_range Next rs1 ap1 iS (length ap - iS) = Some (rs2, ap2)"
    "mset ap2 = mset ap1" "map key ap2 = map key ap1"
  proof -
    have c: "1 \<le> length ap - iS" "iS + (length ap - iS) \<le> length ap1"
      using r(4) len1 by simp_all
    from shuffle_equal_range_correct[where key = key and Next = Next and ap = ap1
        and k = "key (ap1 ! iS)" and iStart = iS and c = "length ap - iS" and rs = rs1,
        OF assms(1) c blk]
    show thesis
      apply (elim exE conjE)
      apply (rule that)
        apply assumption+
      done
  qed
  have pre: "std_sort_by precedes (take (length ap) ap) @ drop (length ap) ap = ?pre" by simp
  have "sort_and_shuffle precedes key Next rs (length ap) ap
      = (case shuffle_equal_ranges key Next rs ?pre (length ap) 0 (key (?pre ! 0)) 1 of
           None \<Rightarrow> None
         | Some (rs', ap', iS) \<Rightarrow> shuffle_equal_range Next rs' ap' iS (length ap - iS))"
    unfolding sort_and_shuffle_def Let_def pre using assms(2) by (simp del: One_nat_def)
  then have "sort_and_shuffle precedes key Next rs (length ap) ap = Some (rs2, ap2)"
    by (simp only: r(1) s(1) option.case prod.case)
  moreover have "mset ap2 = mset ap" using s(2) r(2) by (simp add: mset_std_sort_by)
  moreover have "map key ap2 = map key ?pre" using s(3) r(3) by simp
  ultimately show ?thesis by blast
qed

lemma sort_and_shuffle_zero:
  assumes "\<forall>rs n. fst (Next rs n) = 0" and "1 \<le> length ap"
  shows "\<exists>rs'. sort_and_shuffle precedes key Next rs (length ap) ap
           = Some (rs', std_sort_by precedes ap)"
proof -
  let ?pre = "std_sort_by precedes ap"
  have "size (mset ?pre) = size (mset ap)" by (simp only: mset_std_sort_by)
  then have len: "length ?pre = length ap" by (simp only: size_mset)
  have a: "(0::nat) < 1" "1 \<le> length ap" "length ap \<le> length ?pre"
    using assms(2) len by simp_all
  obtain rs1 iS where r: "shuffle_equal_ranges key Next rs ?pre (length ap) 0 (key (?pre ! 0)) 1
       = Some (rs1, ?pre, iS)" "iS < length ap"
    using shuffle_equal_ranges_zero[where key = key and Next = Next and ap = "?pre"
        and cItems = "key (?pre ! 0)" and iStart = 0 and i = 1 and n = "length ap" and rs = rs,
        OF assms(1) a]
    by (elim exE conjE)
  have c: "1 \<le> length ap - iS" "iS + (length ap - iS) \<le> length ?pre"
    using r(2) len by simp_all
  obtain rs2 where s: "shuffle_equal_range Next rs1 ?pre iS (length ap - iS) = Some (rs2, ?pre)"
    using shuffle_equal_range_zero[where Next = Next and ap = "?pre"
        and iStart = iS and c = "length ap - iS" and rs = rs1, OF assms(1) c]
    by (elim exE)
  have pre: "std_sort_by precedes (take (length ap) ap) @ drop (length ap) ap = ?pre" by simp
  have "sort_and_shuffle precedes key Next rs (length ap) ap
      = (case shuffle_equal_ranges key Next rs ?pre (length ap) 0 (key (?pre ! 0)) 1 of
           None \<Rightarrow> None
         | Some (rs', ap', iS) \<Rightarrow> shuffle_equal_range Next rs' ap' iS (length ap - iS))"
    unfolding sort_and_shuffle_def Let_def pre using assms(2) by (simp del: One_nat_def)
  then have "sort_and_shuffle precedes key Next rs (length ap) ap = Some (rs2, ?pre)"
    by (simp only: r(1) s option.case prod.case)
  then show ?thesis by blast
qed

lemma compare_CountItemsAscending_asym:
  "compare_CountItemsAscending a b \<Longrightarrow> \<not> compare_CountItemsAscending b a"
  by (auto simp: compare_CountItemsAscending_def split: if_splits)

lemma compare_CountItemsAscending_negtrans:
  "\<not> compare_CountItemsAscending a b \<Longrightarrow> \<not> compare_CountItemsAscending b c
   \<Longrightarrow> \<not> compare_CountItemsAscending a c"
  by (auto simp: compare_CountItemsAscending_def split: if_splits)

lemma compare_UnsplittableDescending_asym:
  "compare_UnsplittableDescending a b \<Longrightarrow> \<not> compare_UnsplittableDescending b a"
  by (auto simp: compare_UnsplittableDescending_def split: if_splits)

lemma compare_UnsplittableDescending_negtrans:
  "\<not> compare_UnsplittableDescending a b \<Longrightarrow> \<not> compare_UnsplittableDescending b c
   \<Longrightarrow> \<not> compare_UnsplittableDescending a c"
  by (auto simp: compare_UnsplittableDescending_def split: if_splits)

lemma sorted_CountItemsAscending:
  "sorted_wrt (\<lambda>a b. m_cSplittableItems a < m_cSplittableItems b
       \<or> m_cSplittableItems a = m_cSplittableItems b
         \<and> m_pSplittableValuesStart a \<le> m_pSplittableValuesStart b)
     (std_sort_by compare_CountItemsAscending ap)"
proof -
  have "sorted_wrt (\<lambda>a b. \<not> compare_CountItemsAscending b a)
     (std_sort_by compare_CountItemsAscending ap)"
    by (rule sorted_std_sort_by) 
      (erule compare_CountItemsAscending_asym, erule (1) compare_CountItemsAscending_negtrans)
  then show ?thesis
    by (rule sorted_wrt_mono_rel[rotated])
      (auto simp: compare_CountItemsAscending_def split: if_splits)
qed

lemma sorted_UnsplittableDescending:
  "sorted_wrt (\<lambda>a b. m_cUnsplittableEitherSideMax a > m_cUnsplittableEitherSideMax b
       \<or> m_cUnsplittableEitherSideMax a = m_cUnsplittableEitherSideMax b
         \<and> (m_cUnsplittableEitherSideMin a > m_cUnsplittableEitherSideMin b
            \<or> m_cUnsplittableEitherSideMin a = m_cUnsplittableEitherSideMin b
              \<and> m_pSplittableValuesStart a \<ge> m_pSplittableValuesStart b))
     (std_sort_by compare_UnsplittableDescending ap)"
proof -
  have "sorted_wrt (\<lambda>a b. \<not> compare_UnsplittableDescending b a)
     (std_sort_by compare_UnsplittableDescending ap)"
    by (rule sorted_std_sort_by) 
      (erule compare_UnsplittableDescending_asym, erule (1) compare_UnsplittableDescending_negtrans)
  then show ?thesis
    by (rule sorted_wrt_mono_rel[rotated])
      (auto simp: compare_UnsplittableDescending_def split: if_splits)
qed

lemma sorted_keys_CountItems:
  "sorted (map m_cSplittableItems (std_sort_by compare_CountItemsAscending ap))"
proof -
  have "sorted_wrt (\<lambda>a b. m_cSplittableItems a \<le> m_cSplittableItems b)
     (std_sort_by compare_CountItemsAscending ap)"
    by (rule sorted_wrt_mono_rel[OF _ sorted_CountItemsAscending]) auto
  then show ?thesis by (simp add: sorted_map)
qed

lemma sorted_keys_Unsplittable:
  "sorted_wrt (\<lambda>x y. fst x > fst y \<or> fst x = fst y \<and> snd x \<ge> snd y)
     (map (\<lambda>r. (m_cUnsplittableEitherSideMax r, m_cUnsplittableEitherSideMin r))
        (std_sort_by compare_UnsplittableDescending ap))"
proof -
  have "sorted_wrt (\<lambda>a b. m_cUnsplittableEitherSideMax a > m_cUnsplittableEitherSideMax b
       \<or> m_cUnsplittableEitherSideMax a = m_cUnsplittableEitherSideMax b
         \<and> m_cUnsplittableEitherSideMin a \<ge> m_cUnsplittableEitherSideMin b)
     (std_sort_by compare_UnsplittableDescending ap)"
    by (rule sorted_wrt_mono_rel[OF _ sorted_UnsplittableDescending]) auto
  then show ?thesis by (simp add: sorted_wrt_map)
qed

lemma length_Fisher_Yates_shuffle:
  "length (snd (Fisher_Yates_shuffle Next rs block)) = length block"
proof (induction Next rs block rule: Fisher_Yates_shuffle.induct)
  case (1 Next rs block)
  show ?case
  proof (cases "length block \<le> 1")
    case True
    then show ?thesis by (subst Fisher_Yates_shuffle.simps) simp
  next
    case False
    obtain iSwap rs1 where n: "Next rs (length block) = (iSwap, rs1)"
      by (cases "Next rs (length block)")
    define swapped where "swapped = block[0 := block ! iSwap, iSwap := block ! 0]"
    obtain rs2 shuffled where f: "Fisher_Yates_shuffle Next rs1 (tl swapped) = (rs2, shuffled)"
      by (cases "Fisher_Yates_shuffle Next rs1 (tl swapped)")
    have "length (snd (Fisher_Yates_shuffle Next rs1 (tl swapped))) = length (tl swapped)"
      unfolding swapped_def by (rule "1.IH"[OF False n[symmetric] refl refl])
    then have "length shuffled = length block - 1" using f by (simp add: swapped_def)
    moreover have "Fisher_Yates_shuffle Next rs block = (rs2, hd swapped # shuffled)"
      using False n f[unfolded swapped_def] unfolding swapped_def
      by (subst Fisher_Yates_shuffle.simps) (simp add: Let_def)
    ultimately show ?thesis using False by simp
  qed
qed

lemma mset_Fisher_Yates_shuffle:
  assumes "\<forall>rs n. 1 \<le> n \<longrightarrow> fst (Next rs n) < n"
  shows "mset (snd (Fisher_Yates_shuffle Next rs block)) = mset block"
  using assms
proof (induction Next rs block rule: Fisher_Yates_shuffle.induct)
  case (1 Next rs block)
  show ?case
  proof (cases "length block \<le> 1")
    case True
    then show ?thesis by (subst Fisher_Yates_shuffle.simps) simp
  next
    case False
    obtain iSwap rs1 where n: "Next rs (length block) = (iSwap, rs1)"
      by (cases "Next rs (length block)")
    have sw: "iSwap < length block" using "1.prems" n False by (metis fst_conv linorder_not_le order_less_imp_le)
    define swapped where "swapped = block[0 := block ! iSwap, iSwap := block ! 0]"
    obtain rs2 shuffled where f: "Fisher_Yates_shuffle Next rs1 (tl swapped) = (rs2, shuffled)"
      by (cases "Fisher_Yates_shuffle Next rs1 (tl swapped)")
    have "mset (snd (Fisher_Yates_shuffle Next rs1 (tl swapped))) = mset (tl swapped)"
      unfolding swapped_def by (rule "1.IH"[OF False n[symmetric] refl refl "1.prems"])
    then have a: "mset shuffled = mset (tl swapped)" unfolding f by simp
    have "length swapped = length block" unfolding swapped_def by simp
    then have "0 < length swapped" using False by linarith
    then have ne: "swapped \<noteq> []" by simp
    have pos: "0 < length block" using False by linarith
    have ms: "mset swapped = mset block"
      unfolding swapped_def using mset_swap[OF sw pos] by simp
    have "mset (hd swapped # shuffled) = mset (hd swapped # tl swapped)" using a by simp
    then have b: "mset (hd swapped # shuffled) = mset block" using ne ms by simp
    have "Fisher_Yates_shuffle Next rs block = (rs2, hd swapped # shuffled)"
      using False n f[unfolded swapped_def] unfolding swapped_def
      by (subst Fisher_Yates_shuffle.simps) (simp add: Let_def)
    then show ?thesis using b by simp
  qed
qed

lemma shuffle_equal_range_Fisher_Yates:
  assumes "\<forall>rs n. 1 \<le> n \<longrightarrow> fst (Next rs n) < n" and "block \<noteq> []"
  shows "shuffle_equal_range Next rs (front @ block @ rest) (length front) (length block)
     = Some (fst (Fisher_Yates_shuffle Next rs block),
             front @ snd (Fisher_Yates_shuffle Next rs block) @ rest)"
  using assms
proof (induction Next rs block arbitrary: front rule: Fisher_Yates_shuffle.induct)
  case (1 Next rs block)
  show ?case
  proof (cases "length block \<le> 1")
    case True
    then have l: "length block = 1" using "1.prems"(2) by (cases block) auto
    have "Fisher_Yates_shuffle Next rs block = (rs, block)"
      using True by (subst Fisher_Yates_shuffle.simps) simp
    then show ?thesis unfolding l by (subst shuffle_equal_range.simps) simp
  next
    case False
    let ?c = "length block"
    let ?ap = "front @ block @ rest"
    obtain iSwap rs1 where n: "Next rs ?c = (iSwap, rs1)" by (cases "Next rs ?c")
    have c1: "1 \<le> ?c" using False by simp
    have sw: "iSwap < ?c" using "1.prems"(1) n c1 by (metis fst_conv)
    define swapped where "swapped = block[0 := block ! iSwap, iSwap := block ! 0]"
    obtain rs2 shuffled where f: "Fisher_Yates_shuffle Next rs1 (tl swapped) = (rs2, shuffled)"
      by (cases "Fisher_Yates_shuffle Next rs1 (tl swapped)")
    have fy: "Fisher_Yates_shuffle Next rs block = (rs2, hd swapped # shuffled)"
      using False n f[unfolded swapped_def] unfolding swapped_def
      by (subst Fisher_Yates_shuffle.simps) (simp add: Let_def)
    have ls: "length swapped = ?c" unfolding swapped_def by simp
    have ne: "swapped \<noteq> []" using ls c1 by auto
    have tne: "tl swapped \<noteq> []" using ls False by (cases swapped) auto
    have lt: "length (tl swapped) = ?c - 1" using ls by simp
    have a0: "?ap ! length front = block ! 0" using c1 by (cases block) (simp_all add: nth_append)
    have a1: "?ap ! (length front + iSwap) = block ! iSwap" using sw by (simp add: nth_append)
    have upd: "?ap[length front := block ! iSwap, length front + iSwap := block ! 0]
        = front @ swapped @ rest"
      unfolding swapped_def using sw c1 "1.prems"(2) by (simp add: list_update_append)
    have split: "front @ swapped @ rest = (front @ [hd swapped]) @ tl swapped @ rest"
      using ne by simp
    have inb: "length front + iSwap < length ?ap" using sw by simp
    have "shuffle_equal_range Next rs1 ((front @ [hd swapped]) @ tl swapped @ rest)
            (length (front @ [hd swapped])) (length (tl swapped))
        = Some (fst (Fisher_Yates_shuffle Next rs1 (tl swapped)),
                (front @ [hd swapped]) @ snd (Fisher_Yates_shuffle Next rs1 (tl swapped)) @ rest)"
      unfolding swapped_def
      by (rule "1.IH"[OF False n[symmetric] refl refl "1.prems"(1) tne[unfolded swapped_def]])
    then have rec: "shuffle_equal_range Next rs1 (front @ swapped @ rest) (length front + 1) (?c - 1)
        = Some (rs2, front @ (hd swapped # shuffled) @ rest)"
      unfolding f split lt by simp
    have "shuffle_equal_range Next rs ?ap (length front) ?c
        = shuffle_equal_range Next rs1 (front @ swapped @ rest) (length front + 1) (?c - 1)"
      using False c1 inb n "1.prems"(2) unfolding upd[symmetric] a0[symmetric] a1[symmetric]
      by (subst shuffle_equal_range.simps) (simp add: Let_def)
    then show ?thesis unfolding rec fy by simp
  qed
qed

lemma maximal_blocks_append:
  assumes "cur \<noteq> []" and "\<forall>x \<in> set cur. key x = k"
  shows "maximal_blocks key (cur @ rest)
     = (cur @ takeWhile (\<lambda>y. key y = k) rest)
         # maximal_blocks key (dropWhile (\<lambda>y. key y = k) rest)"
proof -
  obtain x cs where c: "cur = x # cs" using assms(1) by (cases cur) auto
  have k: "key x = k" and cs: "\<And>y. y \<in> set cs \<Longrightarrow> key y = key x"
    using assms(2) c by simp_all
  have "takeWhile (\<lambda>y. key y = key x) (cs @ rest) = cs @ takeWhile (\<lambda>y. key y = key x) rest"
    using cs by simp
  moreover have "dropWhile (\<lambda>y. key y = key x) (cs @ rest) = dropWhile (\<lambda>y. key y = key x) rest"
    using cs by simp
  ultimately show ?thesis unfolding c using k by (simp add: maximal_blocks.simps)
qed

lemma shuffle_equal_ranges_blocks:
  assumes Next: "\<forall>rs n. 1 \<le> n \<longrightarrow> fst (Next rs n) < n"
  shows "cur \<noteq> [] \<Longrightarrow> \<forall>x \<in> set cur. key x = cItems \<Longrightarrow>
    (case shuffle_equal_ranges key Next rs (front @ cur @ rest) (length (front @ cur @ rest))
            (length front) cItems (length front + length cur) of
       None \<Rightarrow> None
     | Some (rs', ap', iS) \<Rightarrow>
         shuffle_equal_range Next rs' ap' iS (length (front @ cur @ rest) - iS))
    = Some (fst (shuffle_blocks Next rs (maximal_blocks key (cur @ rest))),
            front @ snd (shuffle_blocks Next rs (maximal_blocks key (cur @ rest))))"
proof (induction rest arbitrary: rs front cur cItems)
  case Nil
  have loop: "shuffle_equal_ranges key Next rs (front @ cur @ []) (length (front @ cur @ []))
      (length front) cItems (length front + length cur) = Some (rs, front @ cur @ [], length front)"
    by (subst shuffle_equal_ranges.simps) simp
  have blocks: "maximal_blocks key (cur @ []) = [cur]"
    using maximal_blocks_append[OF Nil(1,2), of "[]"] by (simp add: maximal_blocks.simps)
  have l: "length (front @ cur @ []) - length front = length cur" by simp
  have fy: "shuffle_equal_range Next rs (front @ cur @ []) (length front) (length cur)
     = Some (fst (Fisher_Yates_shuffle Next rs cur),
             front @ snd (Fisher_Yates_shuffle Next rs cur) @ [])"
    by (rule shuffle_equal_range_Fisher_Yates[OF Next Nil(1)])
  show ?case
    unfolding loop option.case prod.case l fy blocks by (simp add: split_beta)
next
  case (Cons y ys)
  let ?ap = "front @ cur @ y # ys"
  let ?n = "length ?ap"
  let ?i = "length front + length cur"
  have i: "?i < ?n" by simp
  have y: "?ap ! ?i = y" by (simp add: nth_append)
  show ?case
  proof (cases "cItems \<noteq> key y")
    case True
    define rs1 where "rs1 = fst (Fisher_Yates_shuffle Next rs cur)"
    define cur' where "cur' = snd (Fisher_Yates_shuffle Next rs cur)"
    have "shuffle_equal_range Next rs ?ap (length front) (length cur)
        = Some (rs1, front @ cur' @ y # ys)"
      unfolding rs1_def cur'_def by (rule shuffle_equal_range_Fisher_Yates[OF Next Cons.prems(1)])
    then have sh: "shuffle_equal_range Next rs ?ap (length front) (?i - length front)
        = Some (rs1, front @ cur' @ y # ys)" by simp
    have lc: "length cur' = length cur" unfolding cur'_def by (rule length_Fisher_Yates_shuffle)
    have step: "shuffle_equal_ranges key Next rs ?ap ?n (length front) cItems ?i
       = shuffle_equal_ranges key Next rs1 (front @ cur' @ y # ys) ?n ?i (key y) (?i + 1)"
      using i y True sh by (subst shuffle_equal_ranges.simps) (simp add: Let_def)
    have ih: "(case shuffle_equal_ranges key Next rs1 ((front @ cur') @ [y] @ ys)
                 (length ((front @ cur') @ [y] @ ys)) (length (front @ cur')) (key y)
                 (length (front @ cur') + length [y]) of
            None \<Rightarrow> None
          | Some (rs', ap', iS) \<Rightarrow>
              shuffle_equal_range Next rs' ap' iS (length ((front @ cur') @ [y] @ ys) - iS))
       = Some (fst (shuffle_blocks Next rs1 (maximal_blocks key ([y] @ ys))),
               (front @ cur') @ snd (shuffle_blocks Next rs1 (maximal_blocks key ([y] @ ys))))"
      by (rule Cons.IH) simp_all
    have "maximal_blocks key (cur @ y # ys)
        = (cur @ takeWhile (\<lambda>z. key z = cItems) (y # ys))
            # maximal_blocks key (dropWhile (\<lambda>z. key z = cItems) (y # ys))"
      by (rule maximal_blocks_append[OF Cons.prems])
    then have blocks: "maximal_blocks key (cur @ y # ys) = cur # maximal_blocks key ([y] @ ys)"
      using True by simp
    have sb: "shuffle_blocks Next rs (cur # B)
        = (fst (shuffle_blocks Next rs1 B), cur' @ snd (shuffle_blocks Next rs1 B))" for B
      unfolding rs1_def cur'_def by (simp add: split_beta)
    have eq: "(front @ cur') @ [y] @ ys = front @ cur' @ y # ys" by simp
    have len: "length (front @ cur' @ y # ys) = ?n" using lc by simp
    have idx: "length (front @ cur') = ?i" "length (front @ cur') + length [y] = ?i + 1"
      using lc by simp_all
    show ?thesis
      unfolding step blocks sb fst_conv snd_conv
      using ih unfolding eq len idx by simp
  next
    case False
    then have same: "cItems = key y" by simp
    have step: "shuffle_equal_ranges key Next rs ?ap ?n (length front) cItems ?i
       = shuffle_equal_ranges key Next rs ?ap ?n (length front) cItems (?i + 1)"
      using i y same by (subst shuffle_equal_ranges.simps) (simp add: Let_def)
    have ih: "(case shuffle_equal_ranges key Next rs (front @ (cur @ [y]) @ ys)
                 (length (front @ (cur @ [y]) @ ys)) (length front) cItems
                 (length front + length (cur @ [y])) of
            None \<Rightarrow> None
          | Some (rs', ap', iS) \<Rightarrow>
              shuffle_equal_range Next rs' ap' iS (length (front @ (cur @ [y]) @ ys) - iS))
       = Some (fst (shuffle_blocks Next rs (maximal_blocks key ((cur @ [y]) @ ys))),
               front @ snd (shuffle_blocks Next rs (maximal_blocks key ((cur @ [y]) @ ys))))"
      using Cons.prems same by (intro Cons.IH) simp_all
    have eq: "(cur @ [y]) @ ys = cur @ y # ys" by simp
    have idx: "length front + length (cur @ [y]) = ?i + 1" by simp
    show ?thesis
      unfolding step using ih unfolding eq idx .
  qed
qed

lemma sort_and_shuffle_blocks:
  assumes Next: "\<forall>rs n. 1 \<le> n \<longrightarrow> fst (Next rs n) < n" and ne: "1 \<le> length ap"
  shows "sort_and_shuffle precedes key Next rs (length ap) ap
     = Some (shuffle_blocks Next rs (maximal_blocks key (std_sort_by precedes ap)))"
proof -
  let ?pre = "std_sort_by precedes ap"
  have "size (mset ?pre) = size (mset ap)" by (simp only: mset_std_sort_by)
  then have len: "length ?pre = length ap" by (simp only: size_mset)
  then have "0 < length ?pre" using ne by linarith
  then obtain x xs where p: "?pre = x # xs" by (cases ?pre) simp_all
  have pre: "std_sort_by precedes (take (length ap) ap) @ drop (length ap) ap = ?pre" by simp
  have "sort_and_shuffle precedes key Next rs (length ap) ap
      = (case shuffle_equal_ranges key Next rs ?pre (length ap) 0 (key (?pre ! 0)) 1 of
           None \<Rightarrow> None
         | Some (rs', ap', iS) \<Rightarrow> shuffle_equal_range Next rs' ap' iS (length ap - iS))"
    unfolding sort_and_shuffle_def Let_def pre using ne by (simp del: One_nat_def)
  also have "\<dots> = (case shuffle_equal_ranges key Next rs ([] @ [x] @ xs)
                 (length ([] @ [x] @ xs)) (length ([] :: SplittingRange list)) (key x)
                 (length ([] :: SplittingRange list) + length [x]) of
           None \<Rightarrow> None
         | Some (rs', ap', iS) \<Rightarrow>
             shuffle_equal_range Next rs' ap' iS (length ([] @ [x] @ xs) - iS))"
  proof -
    have e: "[] @ [x] @ xs = x # xs" "length ([] :: SplittingRange list) = 0"
      "0 + length [x] = 1" "(x # xs) ! 0 = x" by simp_all
    show ?thesis unfolding len[symmetric] p e by (rule refl)
  qed
  also have "\<dots> = Some (fst (shuffle_blocks Next rs (maximal_blocks key ([x] @ xs))),
            [] @ snd (shuffle_blocks Next rs (maximal_blocks key ([x] @ xs))))"
    by (rule shuffle_equal_ranges_blocks[OF Next]) simp_all
  also have "\<dots> = Some (shuffle_blocks Next rs (maximal_blocks key ?pre))"
    unfolding p by simp
  finally show ?thesis .
qed

lemma concat_maximal_blocks: "concat (maximal_blocks key xs) = xs"
proof (induction key xs rule: maximal_blocks.induct)
  case (1 key)
  then show ?case by (simp add: maximal_blocks.simps)
next
  case (2 key x xs)
  then show ?case by (simp add: maximal_blocks.simps)
qed

lemma maximal_blocks_same_key:
  "block \<in> set (maximal_blocks key xs) \<Longrightarrow>
     block \<noteq> [] \<and> (\<forall>y \<in> set block. key y = key (hd block))"
proof (induction key xs rule: maximal_blocks.induct)
  case (1 key)
  then show ?case by (simp add: maximal_blocks.simps)
next
  case (2 key x xs)
  show ?case
  proof (cases "block = x # takeWhile (\<lambda>y. key y = key x) xs")
    case True
    then show ?thesis by (auto dest: set_takeWhileD)
  next
    case False
    then have "block \<in> set (maximal_blocks key (dropWhile (\<lambda>y. key y = key x) xs))"
      using 2(2) by (simp add: maximal_blocks.simps)
    then show ?thesis by (rule 2(1))
  qed
qed

lemma maximal_blocks_maximal:
  "successively (\<lambda>block next_block. key (hd block) \<noteq> key (hd next_block))
     (maximal_blocks key xs)"
proof (induction key xs rule: maximal_blocks.induct)
  case (1 key)
  then show ?case by (simp add: maximal_blocks.simps)
next
  case (2 key x xs)
  let ?rest = "dropWhile (\<lambda>y. key y = key x) xs"
  show ?case
  proof (cases ?rest)
    case Nil
    show ?thesis
      unfolding maximal_blocks.simps(2)[of key x xs] Nil maximal_blocks.simps(1) by simp
  next
    case (Cons z zs)
    have "\<not> key z = key x" using hd_dropWhile[of "\<lambda>y. key y = key x" xs] Cons by simp
    then show ?thesis
      using 2 unfolding maximal_blocks.simps(2)[of key x xs] Cons
      by (simp add: maximal_blocks.simps(2)[of key z zs])
  qed
qed

lemma shuffle_blocks_permutes:
  assumes "\<forall>rs n. 1 \<le> n \<longrightarrow> fst (Next rs n) < n"
  shows "\<exists>shuffled. snd (shuffle_blocks Next rs blocks) = concat shuffled
           \<and> list_all2 (\<lambda>block' block. mset block' = mset block) shuffled blocks"
proof (induction blocks arbitrary: rs)
  case Nil
  show ?case by simp
next
  case (Cons block blocks)
  let ?rs1 = "fst (Fisher_Yates_shuffle Next rs block)"
  let ?b = "snd (Fisher_Yates_shuffle Next rs block)"
  obtain shuffled where s: "snd (shuffle_blocks Next ?rs1 blocks) = concat shuffled"
    "list_all2 (\<lambda>block' block. mset block' = mset block) shuffled blocks"
    using Cons[of ?rs1] by blast
  have "snd (shuffle_blocks Next rs (block # blocks)) = concat (?b # shuffled)"
    using s(1) by (simp add: split_beta)
  moreover have "list_all2 (\<lambda>block' block. mset block' = mset block) (?b # shuffled)
      (block # blocks)"
    using s(2) mset_Fisher_Yates_shuffle[OF assms] by simp
  ultimately show ?case by blast
qed

text \<open>
  C8. With a random stream whose every draw is below its bound, on a nonempty array,
  \<^verbatim>\<open>SortSplittingRangesByCountItemsAscending\<close> and
  \<^verbatim>\<open>SortSplittingRangesByUnsplittableDescending\<close> return, and what they return is what
  the spec words: the array is sorted, the sorted array is cut into its maximal blocks
  of equal key, and every block is shuffled by Fisher-Yates with draws from the stream,
  one block after the other. The stream they leave is the stream after these draws and
  the array they leave is the shuffled blocks in their order: each block of the result
  is a permutation of the block of the sorted array at the same place, so no range
  leaves its block.

  The array is a permutation of the array they were given. Before the shuffle the array
  is the sorted one: a permutation of the input in the order of the comparison, that is
  by \<^verbatim>\<open>m_cSplittableItems\<close> ascending and, among equal ones, by the position
  \<^verbatim>\<open>m_pSplittableValuesStart\<close> of the range ascending; respectively by
  \<^verbatim>\<open>m_cUnsplittableEitherSideMax\<close>, then \<^verbatim>\<open>m_cUnsplittableEitherSideMin\<close>, descending and,
  among equal ones, by that position descending. The shuffle leaves at every index of the
  array a range with the key that the sorted array has there, and the keys stay in order
  (nondecreasing, respectively nonincreasing). When every draw is 0, the result is the
  sorted array.
\<close>

theorem SortSplittingRanges_spec:
  assumes Next: "\<forall>rs n. 1 \<le> n \<longrightarrow> fst (Next rs n) < n" and ne: "1 \<le> length ap"
  shows "SortSplittingRangesByCountItemsAscending Next rs (length ap) ap
           = Some (shuffle_blocks Next rs
               (maximal_blocks m_cSplittableItems (std_sort_by compare_CountItemsAscending ap)))
       \<and> SortSplittingRangesByUnsplittableDescending Next rs (length ap) ap
           = Some (shuffle_blocks Next rs
               (maximal_blocks (\<lambda>r. (m_cUnsplittableEitherSideMax r, m_cUnsplittableEitherSideMin r))
                  (std_sort_by compare_UnsplittableDescending ap)))
       \<and> (\<exists>shuffled.
             snd (shuffle_blocks Next rs
               (maximal_blocks m_cSplittableItems (std_sort_by compare_CountItemsAscending ap)))
               = concat shuffled
           \<and> list_all2 (\<lambda>block' block. mset block' = mset block) shuffled
               (maximal_blocks m_cSplittableItems (std_sort_by compare_CountItemsAscending ap)))
       \<and> (\<exists>shuffled.
             snd (shuffle_blocks Next rs
               (maximal_blocks (\<lambda>r. (m_cUnsplittableEitherSideMax r, m_cUnsplittableEitherSideMin r))
                  (std_sort_by compare_UnsplittableDescending ap)))
               = concat shuffled
           \<and> list_all2 (\<lambda>block' block. mset block' = mset block) shuffled
               (maximal_blocks (\<lambda>r. (m_cUnsplittableEitherSideMax r, m_cUnsplittableEitherSideMin r))
                  (std_sort_by compare_UnsplittableDescending ap)))
       \<and> (\<exists>rs' ap'. SortSplittingRangesByCountItemsAscending Next rs (length ap) ap = Some (rs', ap')
            \<and> mset ap' = mset ap
            \<and> sorted (map m_cSplittableItems ap')
            \<and> map m_cSplittableItems ap'
                = map m_cSplittableItems (std_sort_by compare_CountItemsAscending ap))
       \<and> (\<exists>rs' ap'. SortSplittingRangesByUnsplittableDescending Next rs (length ap) ap
                = Some (rs', ap')
            \<and> mset ap' = mset ap
            \<and> sorted_wrt (\<lambda>x y. fst x > fst y \<or> fst x = fst y \<and> snd x \<ge> snd y)
                 (map (\<lambda>r. (m_cUnsplittableEitherSideMax r, m_cUnsplittableEitherSideMin r)) ap')
            \<and> map (\<lambda>r. (m_cUnsplittableEitherSideMax r, m_cUnsplittableEitherSideMin r)) ap'
                = map (\<lambda>r. (m_cUnsplittableEitherSideMax r, m_cUnsplittableEitherSideMin r))
                    (std_sort_by compare_UnsplittableDescending ap))
       \<and> mset (std_sort_by compare_CountItemsAscending ap) = mset ap
       \<and> sorted_wrt (\<lambda>a b. m_cSplittableItems a < m_cSplittableItems b
             \<or> m_cSplittableItems a = m_cSplittableItems b
               \<and> m_pSplittableValuesStart a \<le> m_pSplittableValuesStart b)
           (std_sort_by compare_CountItemsAscending ap)
       \<and> mset (std_sort_by compare_UnsplittableDescending ap) = mset ap
       \<and> sorted_wrt (\<lambda>a b. m_cUnsplittableEitherSideMax a > m_cUnsplittableEitherSideMax b
             \<or> m_cUnsplittableEitherSideMax a = m_cUnsplittableEitherSideMax b
               \<and> (m_cUnsplittableEitherSideMin a > m_cUnsplittableEitherSideMin b
                  \<or> m_cUnsplittableEitherSideMin a = m_cUnsplittableEitherSideMin b
                    \<and> m_pSplittableValuesStart a \<ge> m_pSplittableValuesStart b))
           (std_sort_by compare_UnsplittableDescending ap)
       \<and> ((\<forall>rs n. fst (Next rs n) = 0) \<longrightarrow>
            (\<exists>rs'. SortSplittingRangesByCountItemsAscending Next rs (length ap) ap
                = Some (rs', std_sort_by compare_CountItemsAscending ap))
            \<and> (\<exists>rs'. SortSplittingRangesByUnsplittableDescending Next rs (length ap) ap
                = Some (rs', std_sort_by compare_UnsplittableDescending ap)))"
proof -
  let ?key2 = "\<lambda>r. (m_cUnsplittableEitherSideMax r, m_cUnsplittableEitherSideMin r)"
  obtain rs1 ap1 where a: "SortSplittingRangesByCountItemsAscending Next rs (length ap) ap
        = Some (rs1, ap1)" "mset ap1 = mset ap"
      "map m_cSplittableItems ap1
         = map m_cSplittableItems (std_sort_by compare_CountItemsAscending ap)"
    using sort_and_shuffle_correct[where precedes = compare_CountItemsAscending
        and key = m_cSplittableItems and Next = Next and rs = rs and ap = ap, OF Next ne]
    unfolding SortSplittingRangesByCountItemsAscending_def by (elim exE conjE)
  have a4: "sorted (map m_cSplittableItems ap1)"
    unfolding a(3) by (rule sorted_keys_CountItems)
  obtain rs2 ap2 where d: "SortSplittingRangesByUnsplittableDescending Next rs (length ap) ap
        = Some (rs2, ap2)" "mset ap2 = mset ap"
      "map ?key2 ap2 = map ?key2 (std_sort_by compare_UnsplittableDescending ap)"
    using sort_and_shuffle_correct[where precedes = compare_UnsplittableDescending
        and key = ?key2 and Next = Next and rs = rs and ap = ap, OF Next ne]
    unfolding SortSplittingRangesByUnsplittableDescending_def by (elim exE conjE)
  have d4: "sorted_wrt (\<lambda>x y. fst x > fst y \<or> fst x = fst y \<and> snd x \<ge> snd y) (map ?key2 ap2)"
    unfolding d(3) by (rule sorted_keys_Unsplittable)
  have z: "(\<exists>rs'. SortSplittingRangesByCountItemsAscending Next rs (length ap) ap
                = Some (rs', std_sort_by compare_CountItemsAscending ap))
            \<and> (\<exists>rs'. SortSplittingRangesByUnsplittableDescending Next rs (length ap) ap
                = Some (rs', std_sort_by compare_UnsplittableDescending ap))"
    if zero: "\<forall>rs n. fst (Next rs n) = 0"
    using sort_and_shuffle_zero[where precedes = compare_CountItemsAscending
        and key = m_cSplittableItems and Next = Next and rs = rs and ap = ap, OF zero ne]
      sort_and_shuffle_zero[where precedes = compare_UnsplittableDescending
        and key = ?key2 and Next = Next and rs = rs and ap = ap, OF zero ne]
    unfolding SortSplittingRangesByCountItemsAscending_def
      SortSplittingRangesByUnsplittableDescending_def by (rule conjI)
  have A: "\<exists>rs' ap'. SortSplittingRangesByCountItemsAscending Next rs (length ap) ap = Some (rs', ap')
            \<and> mset ap' = mset ap
            \<and> sorted (map m_cSplittableItems ap')
            \<and> map m_cSplittableItems ap'
                = map m_cSplittableItems (std_sort_by compare_CountItemsAscending ap)"
    by (intro exI[of _ rs1] exI[of _ ap1] conjI a a4)
  have D: "\<exists>rs' ap'. SortSplittingRangesByUnsplittableDescending Next rs (length ap) ap
                = Some (rs', ap')
            \<and> mset ap' = mset ap
            \<and> sorted_wrt (\<lambda>x y. fst x > fst y \<or> fst x = fst y \<and> snd x \<ge> snd y)
                 (map ?key2 ap')
            \<and> map ?key2 ap' = map ?key2 (std_sort_by compare_UnsplittableDescending ap)"
    by (intro exI[of _ rs2] exI[of _ ap2] conjI d d4)
  have E1: "SortSplittingRangesByCountItemsAscending Next rs (length ap) ap
           = Some (shuffle_blocks Next rs
               (maximal_blocks m_cSplittableItems (std_sort_by compare_CountItemsAscending ap)))"
    unfolding SortSplittingRangesByCountItemsAscending_def
    by (rule sort_and_shuffle_blocks[OF Next ne])
  have E2: "SortSplittingRangesByUnsplittableDescending Next rs (length ap) ap
           = Some (shuffle_blocks Next rs
               (maximal_blocks ?key2 (std_sort_by compare_UnsplittableDescending ap)))"
    unfolding SortSplittingRangesByUnsplittableDescending_def
    by (rule sort_and_shuffle_blocks[OF Next ne])
  note P = shuffle_blocks_permutes[OF Next]
  show ?thesis
    by (intro conjI impI E1 E2 P A D mset_std_sort_by sorted_CountItemsAscending
        sorted_UnsplittableDescending z[THEN conjunct1] z[THEN conjunct2])
qed

theorem SortSplittingRanges_spec_witness:
  "SortSplittingRangesByCountItemsAscending Next_example 2 6 example_table
     = Some (1718, [example_range 50 2 5 9, example_range 10 2 5 5, example_range 30 2 9 5,
                    example_range 40 3 5 0, example_range 0 3 0 5, example_range 20 3 5 9])
   \<and> SortSplittingRangesByUnsplittableDescending Next_example 2 6 example_table
     = Some (343, [example_range 20 3 5 9, example_range 50 2 5 9, example_range 30 2 9 5,
                   example_range 10 2 5 5, example_range 40 3 5 0, example_range 0 3 0 5])"
proof -
  have n: "\<forall>rs n. 1 \<le> n \<longrightarrow> fst (Next_example rs n) < n"
    by (simp add: Next_example_def)
  have l: "1 \<le> length example_table" by (simp add: example_table_def)
  have l6: "length example_table = 6" by (simp add: example_table_def)
  have s1: "shuffle_blocks Next_example 2
      (maximal_blocks m_cSplittableItems (std_sort_by compare_CountItemsAscending example_table))
     = (1718, [example_range 50 2 5 9, example_range 10 2 5 5, example_range 30 2 9 5,
               example_range 40 3 5 0, example_range 0 3 0 5, example_range 20 3 5 9])"
    by code_simp
  have s2: "shuffle_blocks Next_example 2
      (maximal_blocks (\<lambda>r. (m_cUnsplittableEitherSideMax r, m_cUnsplittableEitherSideMin r))
         (std_sort_by compare_UnsplittableDescending example_table))
     = (343, [example_range 20 3 5 9, example_range 50 2 5 9, example_range 30 2 9 5,
              example_range 10 2 5 5, example_range 40 3 5 0, example_range 0 3 0 5])"
    by code_simp
  note spec = SortSplittingRanges_spec[where Next = Next_example and rs = 2
      and ap = example_table, OF n l]
  have r1: "SortSplittingRangesByCountItemsAscending Next_example 2 (length example_table)
          example_table
        = Some (shuffle_blocks Next_example 2
            (maximal_blocks m_cSplittableItems
               (std_sort_by compare_CountItemsAscending example_table)))"
    by (rule spec[THEN conjunct1])
  have r2: "SortSplittingRangesByUnsplittableDescending Next_example 2 (length example_table)
          example_table
        = Some (shuffle_blocks Next_example 2
            (maximal_blocks (\<lambda>r. (m_cUnsplittableEitherSideMax r, m_cUnsplittableEitherSideMin r))
               (std_sort_by compare_UnsplittableDescending example_table)))"
    by (rule spec[THEN conjunct2, THEN conjunct1])
  show ?thesis using r1 r2 unfolding l6 s1 s2 by (rule conjI)
qed

section \<open>Properties of GetAvgLength\<close>

lemma round_real_of_int [simp]: "round_real (of_int z) = z"
  by (simp add: round_real_def)

lemma round_real_le: "y \<le> of_int z \<Longrightarrow> round_real y \<le> z"
proof -
  assume a: "y \<le> of_int z"
  show ?thesis
  proof (cases "y = of_int z")
    case True
    then show ?thesis by simp
  next
    case False
    then have "y < of_int z" using a by simp
    then have "\<lfloor>y\<rfloor> < z" by (simp add: floor_less_iff)
    then have "\<lfloor>y\<rfloor> + 1 \<le> z" by simp
    moreover have "round_real y \<le> \<lfloor>y\<rfloor> + 1" by (simp add: round_real_def)
    ultimately show ?thesis by simp
  qed
qed

lemma round_real_ge: "of_int z \<le> y \<Longrightarrow> z \<le> round_real y"
proof -
  assume "of_int z \<le> y"
  then have "z \<le> \<lfloor>y\<rfloor>" by (simp add: le_floor_iff)
  moreover have "\<lfloor>y\<rfloor> \<le> round_real y" by (simp add: round_real_def)
  ultimately show ?thesis by simp
qed

lemma round_real_gt: "of_int z + 1 / 2 < y \<Longrightarrow> z + 1 \<le> round_real y"
proof -
  assume a: "of_int z + 1 / 2 < y"
  then have zf: "z \<le> \<lfloor>y\<rfloor>" by (simp add: le_floor_iff)
  show ?thesis
  proof (cases "z = \<lfloor>y\<rfloor>")
    case True
    then have "1 / 2 < y - of_int \<lfloor>y\<rfloor>" using a by simp
    then show ?thesis using True by (simp add: round_real_def)
  next
    case False
    then have "z + 1 \<le> \<lfloor>y\<rfloor>" using zf by simp
    moreover have "\<lfloor>y\<rfloor> \<le> round_real y" by (simp add: round_real_def)
    ultimately show ?thesis by simp
  qed
qed

lemma round_nearest_even_real:
  assumes "0 < b"
  shows "int (round_nearest_even a b) = round_real (real a / real b)"
proof -
  let ?q = "a div b" and ?r = "a mod b"
  have fl: "\<lfloor>real a / real b\<rfloor> = int ?q"
    by (metis floor_divide_of_nat_eq)
  have "real a = real ?q * real b + real ?r"
    by (metis of_nat_add of_nat_mult div_mult_mod_eq)
  then have fr: "real a / real b - of_int (int ?q) = real ?r / real b"
    using assms by (simp add: field_simps)
  have c1: "real ?r / real b < 1 / 2 \<longleftrightarrow> 2 * ?r < b"
    using assms by (simp add: field_simps) (metis of_nat_less_iff of_nat_mult of_nat_numeral)
  have c2: "1 / 2 < real ?r / real b \<longleftrightarrow> b < 2 * ?r"
    using assms by (simp add: field_simps) (metis of_nat_less_iff of_nat_mult of_nat_numeral)
  show ?thesis
    unfolding round_real_def round_nearest_even_def Let_def fl fr c1 c2
    by (simp add: even_of_nat)
qed

lemma two_powi_nonneg: "0 \<le> k \<Longrightarrow> (2::real) powi k = 2 ^ nat k"
  by (simp add: power_int_def)

lemma two_powi_neg: "k < 0 \<Longrightarrow> (2::real) powi k = 1 / 2 ^ nat (- k)"
  by (simp add: power_int_def field_simps)

lemma two_powi_add: "(2::real) powi (i + j) = 2 powi i * 2 powi j"
  by (simp add: power_int_add)

lemma two_powi_pos [simp]: "0 < (2::real) powi k"
  by (simp add: power_int_def)

lemma bitlen_real_bounds:
  assumes "0 < a"
  shows "2 powi (bitlen (int a) - 1) \<le> real a" and "real a < 2 powi (bitlen (int a))"
proof -
  have pos: "0 < int a" using assms by simp
  have b: "2 ^ nat (bitlen (int a) - 1) \<le> int a" "int a < 2 ^ nat (bitlen (int a))"
    using bitlen_bounds[OF pos] by simp_all
  have ge1: "1 \<le> bitlen (int a)" using pos by (simp add: bitlen_ge_iff_power)
  have "real_of_int (2 ^ nat (bitlen (int a) - 1)) \<le> real_of_int (int a)"
    using b(1) by (simp only: of_int_le_iff)
  then show "2 powi (bitlen (int a) - 1) \<le> real a"
    using ge1 by (simp add: two_powi_nonneg)
  have "real_of_int (int a) < real_of_int (2 ^ nat (bitlen (int a)))"
    using b(2) by (simp only: of_int_less_iff)
  then show "real a < 2 powi (bitlen (int a))"
    using ge1 by (simp add: two_powi_nonneg)
qed

lemma quotient_bounds:
  assumes "0 < a" "0 < b"
  defines "d \<equiv> bitlen (int a) - bitlen (int b)"
  shows "2 powi (d - 1) < real a / real b" and "real a / real b < 2 powi (d + 1)"
proof -
  have a: "2 powi (bitlen (int a) - 1) \<le> real a" "real a < 2 powi (bitlen (int a))"
    using bitlen_real_bounds[OF assms(1)] by simp_all
  have b: "2 powi (bitlen (int b) - 1) \<le> real b" "real b < 2 powi (bitlen (int b))"
    using bitlen_real_bounds[OF assms(2)] by simp_all
  have bpos: "0 < real b" using assms(2) by simp
  have e1: "(2::real) powi (bitlen (int a) - 1) = 2 powi (d - 1) * 2 powi (bitlen (int b))"
    unfolding two_powi_add[symmetric] d_def by simp
  have "2 powi (d - 1) * real b < 2 powi (d - 1) * 2 powi (bitlen (int b))"
    using b(2) by simp
  also have "\<dots> \<le> real a" using a(1) e1 by simp
  finally show "2 powi (d - 1) < real a / real b"
    using bpos by (simp add: field_simps)
  have e2: "(2::real) powi (bitlen (int a)) = 2 powi (d + 1) * 2 powi (bitlen (int b) - 1)"
    unfolding two_powi_add[symmetric] d_def by simp
  have "real a < 2 powi (d + 1) * 2 powi (bitlen (int b) - 1)" using a(2) e2 by simp
  also have "\<dots> \<le> 2 powi (d + 1) * real b" using b(1) by simp
  finally show "real a / real b < 2 powi (d + 1)"
    using bpos by (simp add: field_simps)
qed

lemma below_iff:
  assumes "0 < b"
  shows "(if 0 \<le> d then a < b * 2 ^ nat d else a * 2 ^ nat (- d) < b)
           \<longleftrightarrow> real a / real b < 2 powi d"
proof (cases "0 \<le> d")
  case True
  have "a < b * 2 ^ nat d \<longleftrightarrow> real a < real (b * 2 ^ nat d)" by (simp only: of_nat_less_iff)
  also have "\<dots> \<longleftrightarrow> real a / real b < 2 ^ nat d" using assms by (simp add: field_simps)
  finally show ?thesis using True by (simp add: two_powi_nonneg)
next
  case False
  have "a * 2 ^ nat (- d) < b \<longleftrightarrow> real (a * 2 ^ nat (- d)) < real b" by (simp only: of_nat_less_iff)
  also have "\<dots> \<longleftrightarrow> real a / real b < 1 / 2 ^ nat (- d)" using assms by (simp add: field_simps)
  finally show ?thesis using False by (simp add: two_powi_neg)
qed

lemma float_round_rounds:
  assumes "0 < a" "0 < b" and p: "1 \<le> float_digits pf"
  shows "rounds_to (float_digits pf) (real a / real b) (float_real (float_round pf a b))"
proof -
  let ?p = "float_digits pf"
  let ?x = "real a / real b"
  define d where "d = bitlen (int a) - bitlen (int b)"
  define below where "below \<longleftrightarrow> (if 0 \<le> d then a < b * 2 ^ nat d else a * 2 ^ nat (- d) < b)"
  define k where "k = (if below then int ?p - d else int ?p - 1 - d)"
  have qb: "2 powi (d - 1) < ?x" "?x < 2 powi (d + 1)"
    using quotient_bounds[OF assms(1,2)] unfolding d_def by simp_all
  have bl: "below \<longleftrightarrow> ?x < 2 powi d"
    unfolding below_def by (rule below_iff[OF assms(2)])
  have xpos: "0 < ?x" using assms by simp
  have pp: "(2::real) ^ ?p = 2 powi (int ?p)" "(2::real) ^ (?p - 1) = 2 powi (int ?p - 1)"
    using p by (simp_all add: two_powi_nonneg nat_diff_distrib)
  have lo: "2 ^ (?p - 1) \<le> ?x * 2 powi k"
  proof (cases below)
    case True
    have "(2::real) powi (int ?p - 1) = 2 powi (d - 1) * 2 powi k"
      unfolding two_powi_add[symmetric] k_def using True by simp
    also have "\<dots> \<le> ?x * 2 powi k"
      by (rule mult_right_mono[OF less_imp_le[OF qb(1)]]) simp
    finally show ?thesis unfolding pp .
  next
    case False
    then have ge: "2 powi d \<le> ?x" using bl by simp
    have "(2::real) powi (int ?p - 1) = 2 powi d * 2 powi k"
      unfolding two_powi_add[symmetric] k_def using False by simp
    also have "\<dots> \<le> ?x * 2 powi k"
      by (rule mult_right_mono[OF ge]) simp
    finally show ?thesis unfolding pp .
  qed
  have hi: "?x * 2 powi k < 2 ^ ?p"
  proof (cases below)
    case True
    then have "?x < 2 powi d" using bl by simp
    then have "?x * 2 powi k < 2 powi d * 2 powi k"
      by (rule mult_strict_right_mono) simp
    also have "\<dots> = 2 powi (int ?p)"
      unfolding two_powi_add[symmetric] k_def using True by simp
    finally show ?thesis unfolding pp .
  next
    case False
    have "?x * 2 powi k < 2 powi (d + 1) * 2 powi k"
      by (rule mult_strict_right_mono[OF qb(2)]) simp
    also have "\<dots> = 2 powi (int ?p)"
      unfolding two_powi_add[symmetric] k_def using False by simp
    finally show ?thesis unfolding pp .
  qed
  have fr: "float_round pf a b =
      (if 0 \<le> k then (round_nearest_even (a * 2 ^ nat k) b, - k)
       else (round_nearest_even a (b * 2 ^ nat (- k)), - k))"
    unfolding float_round_def Let_def k_def below_def d_def by simp
  have val: "float_real (float_round pf a b) = of_int (round_real (?x * 2 powi k)) * 2 powi (- k)"
  proof (cases "0 \<le> k")
    case True
    have "int (round_nearest_even (a * 2 ^ nat k) b) = round_real (real (a * 2 ^ nat k) / real b)"
      by (rule round_nearest_even_real[OF assms(2)])
    also have "real (a * 2 ^ nat k) / real b = ?x * 2 powi k"
      using True by (simp add: two_powi_nonneg)
    finally have "real (round_nearest_even (a * 2 ^ nat k) b) = of_int (round_real (?x * 2 powi k))"
      by (metis of_int_of_nat_eq)
    then show ?thesis using True by (simp add: fr float_real_def)
  next
    case False
    have bp: "0 < b * 2 ^ nat (- k)" using assms(2) by simp
    have "int (round_nearest_even a (b * 2 ^ nat (- k)))
        = round_real (real a / real (b * 2 ^ nat (- k)))"
      by (rule round_nearest_even_real[OF bp])
    also have "real a / real (b * 2 ^ nat (- k)) = ?x * 2 powi k"
      using False by (simp add: two_powi_neg)
    finally have "real (round_nearest_even a (b * 2 ^ nat (- k))) = of_int (round_real (?x * 2 powi k))"
      by (metis of_int_of_nat_eq)
    then show ?thesis using False by (simp add: fr float_real_def)
  qed
  show ?thesis
    unfolding rounds_to_def using lo hi val by blast
qed

lemma two_powi_le_half: "K < 0 \<Longrightarrow> (2::real) powi K \<le> 1 / 2"
proof -
  assume "K < 0"
  then have "K \<le> - 1" by simp
  then have "(2::real) powi K \<le> 2 powi (- 1)" by (intro power_int_increasing) simp_all
  then show ?thesis by simp
qed

lemma rounds_to_exact:
  assumes r: "rounds_to p x r" and x: "x = real N" and N: "1 \<le> N" "N < 2 ^ p" and p: "1 \<le> p"
  shows "r = real N"
proof -
  obtain K :: int where K: "2 ^ (p - 1) \<le> x * 2 powi K" "x * 2 powi K < 2 ^ p"
    "r = of_int (round_real (x * 2 powi K)) * 2 powi (- K)"
    using r unfolding rounds_to_def by blast
  have pp: "(2::real) ^ p = 2 * 2 ^ (p - 1)" using p by (cases p) simp_all
  have Nlt: "real N < 2 ^ p" using N(2) by (metis of_nat_less_iff of_nat_numeral of_nat_power)
  have "0 \<le> K"
  proof (rule ccontr)
    assume "\<not> 0 \<le> K"
    then have "(2::real) powi K \<le> 1 / 2" by (intro two_powi_le_half) simp
    then have "x * 2 powi K \<le> x * (1 / 2)" unfolding x by (intro mult_left_mono) simp_all
    also have "\<dots> < 2 ^ (p - 1)" using Nlt unfolding x pp by simp
    finally show False using K(1) by simp
  qed
  then have e: "x * 2 powi K = of_int (int (N * 2 ^ nat K))"
    unfolding x by (simp add: two_powi_nonneg)
  have "r = real (N * 2 ^ nat K) * 2 powi (- K)"
    unfolding K(3) e round_real_of_int by simp
  also have "\<dots> = real N * (2 powi K * 2 powi (- K))"
    using \<open>0 \<le> K\<close> by (simp add: two_powi_nonneg)
  also have "\<dots> = real N" unfolding two_powi_add[symmetric] by simp
  finally show ?thesis .
qed

lemma rounds_to_ge:
  assumes r: "rounds_to p x r" and x: "2 ^ p \<le> x" and p: "1 \<le> p"
  shows "2 ^ p \<le> r"
proof -
  obtain K :: int where K: "2 ^ (p - 1) \<le> x * 2 powi K" "x * 2 powi K < 2 ^ p"
    "r = of_int (round_real (x * 2 powi K)) * 2 powi (- K)"
    using r unfolding rounds_to_def by blast
  have pp: "(2::real) ^ p = 2 * 2 ^ (p - 1)" using p by (cases p) simp_all
  have xpos: "0 < x" using x by (smt (verit) zero_less_power)
  have "K < 0"
  proof (rule ccontr)
    assume "\<not> K < 0"
    then have "1 \<le> (2::real) powi K" by (simp add: two_powi_nonneg)
    then have "x * 1 \<le> x * 2 powi K" using xpos by (intro mult_left_mono) simp_all
    then show False using K(2) x by simp
  qed
  then have "1 \<le> - K" by simp
  then have "(2::real) powi 1 \<le> 2 powi (- K)" by (intro power_int_increasing) simp_all
  then have two: "2 \<le> (2::real) powi (- K)" by simp
  have "of_int (2 ^ (p - 1)) \<le> x * 2 powi K" using K(1) by simp
  then have "2 ^ (p - 1) \<le> round_real (x * 2 powi K)" by (rule round_real_ge)
  then have "(2::real) ^ (p - 1) \<le> of_int (round_real (x * 2 powi K))"
    by (metis of_int_le_iff of_int_numeral of_int_power)
  then have "(2::real) ^ (p - 1) * 2 \<le> of_int (round_real (x * 2 powi K)) * 2 powi (- K)"
    using two by (intro mult_mono) (simp_all, smt (verit) zero_le_power)
  then show ?thesis unfolding K(3) pp by simp
qed

lemma rounds_to_unit:
  assumes r: "rounds_to p x r" and x: "0 < x" "x < 1" and p: "1 \<le> p"
  shows "0 < r" and "r \<le> 1"
proof -
  obtain K :: int where K: "2 ^ (p - 1) \<le> x * 2 powi K" "x * 2 powi K < 2 ^ p"
    "r = of_int (round_real (x * 2 powi K)) * 2 powi (- K)"
    using r unfolding rounds_to_def by blast
  have one: "(1::real) \<le> 2 ^ (p - 1)" by simp
  have "0 \<le> K"
  proof (rule ccontr)
    assume "\<not> 0 \<le> K"
    then have "(2::real) powi K \<le> 1 / 2" by (intro two_powi_le_half) simp
    then have "x * 2 powi K \<le> x * (1 / 2)" using x(1) by (intro mult_left_mono) simp_all
    also have "\<dots> < 1" using x by simp
    finally show False using K(1) one by simp
  qed
  have "of_int (2 ^ (p - 1)) \<le> x * 2 powi K" using K(1) by simp
  then have "2 ^ (p - 1) \<le> round_real (x * 2 powi K)" by (rule round_real_ge)
  then have "0 < round_real (x * 2 powi K)"
    by (smt (verit) zero_less_power)
  then show "0 < r" unfolding K(3) by simp
  have "x * 2 powi K \<le> 1 * 2 powi K" using x(2) by (intro mult_right_mono) simp_all
  then have "x * 2 powi K \<le> of_int (2 ^ nat K)"
    using \<open>0 \<le> K\<close> by (simp add: two_powi_nonneg)
  then have "round_real (x * 2 powi K) \<le> 2 ^ nat K" by (rule round_real_le)
  then have "of_int (round_real (x * 2 powi K)) \<le> (2::real) ^ nat K"
    by (metis of_int_le_iff of_int_numeral of_int_power)
  then have "of_int (round_real (x * 2 powi K)) \<le> (2::real) powi K"
    using \<open>0 \<le> K\<close> by (simp add: two_powi_nonneg)
  then have "of_int (round_real (x * 2 powi K)) * 2 powi (- K) \<le> (2::real) powi K * 2 powi (- K)"
    by (intro mult_right_mono) simp_all
  also have "\<dots> = 1" unfolding two_powi_add[symmetric] by simp
  finally show "r \<le> 1" unfolding K(3) .
qed

lemma rounds_to_ceiling:
  assumes r: "rounds_to p (real n / real m) r"
    and n: "1 \<le> n" "n < 2 ^ p" and m: "1 \<le> m" and p: "1 \<le> p"
  shows "\<lceil>r\<rceil> = \<lceil>real n / real m\<rceil>"
proof -
  let ?x = "real n / real m"
  obtain K :: int where K: "2 ^ (p - 1) \<le> ?x * 2 powi K" "?x * 2 powi K < 2 ^ p"
    "r = of_int (round_real (?x * 2 powi K)) * 2 powi (- K)"
    using r unfolding rounds_to_def by blast
  have pp: "(2::real) ^ p = 2 * 2 ^ (p - 1)" using p by (cases p) simp_all
  have nlt: "real n < 2 ^ p" using n(2) by (metis of_nat_less_iff of_nat_numeral of_nat_power)
  have mpos: "0 < real m" using m by simp
  have xpos: "0 < ?x" using n m by simp
  have xle: "?x \<le> real n" using m n by (simp add: field_simps) 
  define N where "N = \<lceil>?x\<rceil> - 1"
  have Nlt: "of_int N < ?x" unfolding N_def using ceiling_correct[of ?x] by simp
  have Nge: "?x \<le> of_int N + 1" unfolding N_def using ceiling_correct[of ?x] by simp
  have "0 < \<lceil>?x\<rceil>" using xpos by (simp add: ceiling_less_iff)
  then have N0: "0 \<le> N" unfolding N_def by simp
  have K0: "0 \<le> K"
  proof (rule ccontr)
    assume "\<not> 0 \<le> K"
    then have "(2::real) powi K \<le> 1 / 2" by (intro two_powi_le_half) simp
    then have "?x * 2 powi K \<le> ?x * (1 / 2)" using xpos by (intro mult_left_mono) simp_all
    also have "\<dots> \<le> real n * (1 / 2)" using xle by simp
    also have "\<dots> < 2 ^ (p - 1)" using nlt unfolding pp by simp
    finally show False using K(1) by simp
  qed
  have pk: "(2::real) powi K = 2 ^ nat K" using K0 by (rule two_powi_nonneg)
  have inv: "(2::real) powi K * 2 powi (- K) = 1" unfolding two_powi_add[symmetric] by simp
  \<comment> \<open>upper bound\<close>
  have "?x * 2 powi K \<le> (of_int N + 1) * 2 powi K" using Nge by (intro mult_right_mono) simp_all
  also have "\<dots> = of_int ((N + 1) * 2 ^ nat K)" unfolding pk by simp
  finally have "round_real (?x * 2 powi K) \<le> (N + 1) * 2 ^ nat K" by (rule round_real_le)
  then have "real_of_int (round_real (?x * 2 powi K)) \<le> of_int ((N + 1) * 2 ^ nat K)"
    by (simp only: of_int_le_iff)
  then have "real_of_int (round_real (?x * 2 powi K)) \<le> (of_int N + 1) * 2 powi K"
    unfolding pk by simp
  then have "r \<le> (of_int N + 1) * 2 powi K * 2 powi (- K)"
    unfolding K(3) by (intro mult_right_mono) simp_all
  then have up: "r \<le> of_int (N + 1)" using inv by (simp add: mult.assoc)
  \<comment> \<open>lower bound\<close>
  have "real_of_int (N * int m) < real_of_int (int n)"
    using Nlt mpos by (simp add: field_simps)
  then have "N * int m < int n" by (simp only: of_int_less_iff)
  then have "N * int m + 1 \<le> int n" by simp
  then have "real_of_int (N * int m + 1) \<le> real_of_int (int n)" by (simp only: of_int_le_iff)
  then have "(of_int N * real m + 1) / real m \<le> ?x"
    using mpos by (intro divide_right_mono) simp_all
  moreover have "(of_int N * real m + 1) / real m = of_int N + 1 / real m"
    using mpos by (simp add: add_divide_distrib)
  ultimately have step: "of_int N + 1 / real m \<le> ?x" by simp
  have "2 ^ (p - 1) * real m \<le> real n * 2 powi K" using K(1) mpos by (simp add: field_simps)
  also have "\<dots> < 2 * 2 ^ (p - 1) * 2 powi K" using nlt unfolding pp by (intro mult_strict_right_mono) simp_all
  finally have "real m < 2 * 2 powi K" by simp
  then have half: "1 / 2 < 2 powi K / real m" using mpos by (simp add: field_simps)
  have "of_int (N * 2 ^ nat K) + 1 / 2 < of_int N * 2 powi K + 2 powi K / real m"
    using half unfolding pk by simp
  also have "\<dots> = (of_int N + 1 / real m) * 2 powi K" by (simp add: field_simps)
  also have "\<dots> \<le> ?x * 2 powi K" using step by (intro mult_right_mono) simp_all
  finally have "N * 2 ^ nat K + 1 \<le> round_real (?x * 2 powi K)" by (rule round_real_gt)
  then have "real_of_int (N * 2 ^ nat K + 1) \<le> real_of_int (round_real (?x * 2 powi K))"
    by (simp only: of_int_le_iff)
  then have "(of_int N * 2 powi K + 1) * 2 powi (- K) \<le> r"
    unfolding K(3) pk by (intro mult_right_mono) simp_all
  then have "of_int N * (2 powi K * 2 powi (- K)) + 2 powi (- K) \<le> r"
    by (simp add: field_simps)
  then have "of_int N + 2 powi (- K) \<le> r" unfolding inv by simp
  moreover have "0 < (2::real) powi (- K)" by simp
  ultimately have lo: "of_int N < r" by linarith
  have "\<lceil>r\<rceil> = N + 1"
    using lo up by (intro ceiling_unique) simp_all
  then show ?thesis unfolding N_def by simp
qed

lemma rounds_to_pos:
  assumes "rounds_to p x r"
  shows "0 < r"
proof -
  obtain K :: int where K: "2 ^ (p - 1) \<le> x * 2 powi K"
    "r = of_int (round_real (x * 2 powi K)) * 2 powi (- K)"
    using assms unfolding rounds_to_def by blast
  have "of_int (2 ^ (p - 1)) \<le> x * 2 powi K" using K(1) by simp
  then have "2 ^ (p - 1) \<le> round_real (x * 2 powi K)" by (rule round_real_ge)
  then have "0 < round_real (x * 2 powi K)" by (smt (verit) zero_less_power)
  then show ?thesis unfolding K(2) by simp
qed

lemma rounds_to_scale:
  assumes "rounds_to p x r"
  shows "rounds_to p (x * 2 powi j) (r * 2 powi j)"
proof -
  obtain K :: int where K: "2 ^ (p - 1) \<le> x * 2 powi K" "x * 2 powi K < 2 ^ p"
    "r = of_int (round_real (x * 2 powi K)) * 2 powi (- K)"
    using assms unfolding rounds_to_def by blast
  have e: "x * 2 powi j * 2 powi (K - j) = x * 2 powi K"
    by (simp add: mult.assoc two_powi_add[symmetric])
  have "r * 2 powi j = of_int (round_real (x * 2 powi K)) * (2 powi (- K) * 2 powi j)"
    unfolding K(3) by (simp add: mult.assoc)
  also have "2 powi (- K) * 2 powi j = (2::real) powi (- (K - j))"
    unfolding two_powi_add[symmetric] by simp
  finally have "r * 2 powi j
      = of_int (round_real (x * 2 powi j * 2 powi (K - j))) * 2 powi (- (K - j))"
    unfolding e .
  then show ?thesis
    unfolding rounds_to_def
  proof (intro exI[of _ "K - j"] conjI)
    show "2 ^ (p - 1) \<le> x * 2 powi j * 2 powi (K - j)" unfolding e by (rule K(1))
    show "x * 2 powi j * 2 powi (K - j) < 2 ^ p" unfolding e by (rule K(2))
  qed
qed

lemma float_real_pos_iff: "0 < float_real x \<longleftrightarrow> 0 < fst x"
  by (simp add: float_real_def zero_less_mult_iff)

lemma float_of_size_t_rounds:
  assumes "0 < n" and "1 \<le> float_digits pf"
  shows "rounds_to (float_digits pf) (real n) (float_real (float_of_size_t pf n))"
    and "0 < fst (float_of_size_t pf n)"
proof -
  have one: "(0::nat) < 1" by simp
  have "rounds_to (float_digits pf) (real n / real 1) (float_real (float_round pf n 1))"
    by (rule float_round_rounds[OF assms(1) one assms(2)])
  then show r: "rounds_to (float_digits pf) (real n) (float_real (float_of_size_t pf n))"
    using assms(1) by (simp add: float_of_size_t_def)
  show "0 < fst (float_of_size_t pf n)"
    using rounds_to_pos[OF r] by (simp add: float_real_pos_iff)
qed

lemma float_divide_rounds:
  assumes "0 < fst x" "0 < fst y" and "1 \<le> float_digits pf"
  shows "\<exists>z. float_divide pf x y = Some z
           \<and> rounds_to (float_digits pf) (float_real x / float_real y) (float_real z)"
proof -
  obtain M E where fr: "float_round pf (fst x) (fst y) = (M, E)" by (cases "float_round pf (fst x) (fst y)")
  have r: "rounds_to (float_digits pf) (real (fst x) / real (fst y)) (float_real (M, E))"
    using float_round_rounds[OF assms] fr by simp
  have d: "float_divide pf x y = Some (M, E + snd x - snd y)"
    using assms(1,2) fr by (simp add: float_divide_def)
  have q: "float_real x / float_real y = real (fst x) / real (fst y) * 2 powi (snd x - snd y)"
    unfolding float_real_def by (simp add: power_int_diff)
  have v: "float_real (M, E + snd x - snd y) = float_real (M, E) * 2 powi (snd x - snd y)"
    unfolding float_real_def
    by (simp add: mult.assoc two_powi_add[symmetric] add_diff_eq)
  have z: "rounds_to (float_digits pf) (float_real x / float_real y)
      (float_real (M, E + snd x - snd y))"
    unfolding q v by (rule rounds_to_scale[OF r])
  show ?thesis using d z by blast
qed

lemma ceiling_div_nat:
  assumes "0 < b"
  shows "real ((a + b - 1) div b) = of_int \<lceil>real a / real b\<rceil>"
proof -
  let ?N = "(a + b - 1) div b"
  have dm: "?N * b + (a + b - 1) mod b = a + b - 1" by simp
  have ml: "(a + b - 1) mod b < b" using assms by simp
  have ge: "a \<le> ?N * b" using dm ml assms by linarith
  have lt: "?N * b < a + b" using dm assms by linarith
  have bpos: "0 < real b" using assms by simp
  have "real a \<le> real (?N * b)" using ge by (simp only: of_nat_le_iff)
  then have up: "real a / real b \<le> real ?N" using bpos by (simp add: field_simps)
  have "real (?N * b) < real (a + b)" using lt by (simp only: of_nat_less_iff)
  then have "real ?N * real b - real b < real a" by simp
  then have "(real ?N - 1) * real b < real a" by (simp add: algebra_simps)
  then have lo: "real ?N - 1 < real a / real b" using bpos by (simp add: field_simps)
  have "\<lceil>real a / real b\<rceil> = int ?N"
    using lo up by (intro ceiling_unique) simp_all
  then show ?thesis by simp
qed

lemma float_ceil_real:
  shows "float_real (float_ceil x) = of_int \<lceil>float_real x\<rceil>"
    and "0 \<le> snd (float_ceil x)"
proof -
  show "0 \<le> snd (float_ceil x)" by (simp add: float_ceil_def)
  show "float_real (float_ceil x) = of_int \<lceil>float_real x\<rceil>"
  proof (cases "0 \<le> snd x")
    case True
    have fx: "float_real x = of_int (int (fst x * 2 ^ nat (snd x)))"
      using True by (simp add: float_real_def two_powi_nonneg)
    have c: "\<lceil>float_real x\<rceil> = int (fst x * 2 ^ nat (snd x))"
      unfolding fx by (rule ceiling_of_int)
    have "float_real (float_ceil x) = float_real x" using True by (simp add: float_ceil_def)
    also have "\<dots> = of_int (int (fst x * 2 ^ nat (snd x)))" by (rule fx)
    also have "\<dots> = of_int \<lceil>float_real x\<rceil>" by (simp only: c)
    finally show ?thesis .
  next
    case False
    have pos: "(0::nat) < 2 ^ nat (- snd x)" by simp
    have "float_real x = real (fst x) / real (2 ^ nat (- snd x))"
      using False by (simp add: float_real_def two_powi_neg)
    then show ?thesis
      using False ceiling_div_nat[OF pos, of "fst x"]
      by (simp add: float_ceil_def float_real_def)
  qed
qed

lemma float_value_less_real: "float_value_less x y \<longleftrightarrow> float_real x < float_real y"
proof -
  define e where "e = min (snd x) (snd y)"
  have ex: "0 \<le> snd x - e" and ey: "0 \<le> snd y - e" by (simp_all add: e_def)
  have vx: "float_real x = real (fst x * 2 ^ nat (snd x - e)) * 2 powi e"
    unfolding float_real_def using ex
    by (simp add: mult.assoc two_powi_nonneg[symmetric] two_powi_add[symmetric])
  have vy: "float_real y = real (fst y * 2 ^ nat (snd y - e)) * 2 powi e"
    unfolding float_real_def using ey
    by (simp add: mult.assoc two_powi_nonneg[symmetric] two_powi_add[symmetric])
  have "float_value_less x y \<longleftrightarrow> fst x * 2 ^ nat (snd x - e) < fst y * 2 ^ nat (snd y - e)"
    by (simp add: float_value_less_def Let_def e_def)
  also have "\<dots> \<longleftrightarrow> real (fst x * 2 ^ nat (snd x - e)) < real (fst y * 2 ^ nat (snd y - e))"
    by (simp only: of_nat_less_iff)
  also have "\<dots> \<longleftrightarrow> float_real x < float_real y"
    unfolding vx vy by (simp only: mult_less_cancel_right_pos[OF two_powi_pos])
  finally show ?thesis .
qed

lemma size_t_of_float_integer:
  assumes "0 \<le> snd x" and "float_real x = real C" and "C < 2 ^ size_bits pf"
  shows "size_t_of_float pf x = Some C"
proof -
  have "float_real x = real (fst x * 2 ^ nat (snd x))"
    using assms(1) by (simp add: float_real_def two_powi_nonneg)
  then have "fst x * 2 ^ nat (snd x) = C" using assms(2) by (simp only: of_nat_eq_iff)
  then show ?thesis using assms(1,3) by (simp add: size_t_of_float_def)
qed

lemma GetAvgLength_ceiling:
  assumes p: "1 \<le> float_digits pf"
    and n: "1 \<le> cInstances" "cInstances < 2 ^ float_digits pf" "cInstances < 2 ^ size_bits pf"
    and m: "1 \<le> cMaximumBins"
  shows "\<exists>z. float_divide pf (float_of_size_t pf cInstances) (float_of_size_t pf cMaximumBins)
               = Some z
           \<and> size_t_of_float pf (float_ceil z) = Some (nat \<lceil>real cInstances / real cMaximumBins\<rceil>)
           \<and> GetAvgLength_loop pf (nat \<lceil>real cInstances / real cMaximumBins\<rceil>) (float_ceil z)
               = Some (nat \<lceil>real cInstances / real cMaximumBins\<rceil>)"
proof -
  let ?p = "float_digits pf"
  let ?n = cInstances and ?m = cMaximumBins
  let ?xn = "float_of_size_t pf ?n" and ?xm = "float_of_size_t pf ?m"
  have npos: "0 < ?n" and mpos: "0 < ?m" using n(1) m by simp_all
  have rn: "rounds_to ?p (real ?n) (float_real ?xn)" and fn: "0 < fst ?xn"
    using float_of_size_t_rounds[OF npos p] by simp_all
  have rm: "rounds_to ?p (real ?m) (float_real ?xm)" and fm: "0 < fst ?xm"
    using float_of_size_t_rounds[OF mpos p] by simp_all
  have vn: "float_real ?xn = real ?n"
    by (rule rounds_to_exact[OF rn refl n(1,2) p])
  obtain z where z: "float_divide pf ?xn ?xm = Some z"
    "rounds_to ?p (real ?n / float_real ?xm) (float_real z)"
    using float_divide_rounds[OF fn fm p] unfolding vn by blast
  define C where "C = nat \<lceil>real ?n / real ?m\<rceil>"
  have nlt: "real ?n < 2 ^ ?p" using n(2) by (metis of_nat_less_iff of_nat_numeral of_nat_power)
  have xpos: "0 < real ?n / real ?m" using npos mpos by simp
  have cz: "\<lceil>float_real z\<rceil> = \<lceil>real ?n / real ?m\<rceil>"
  proof (cases "?m < 2 ^ ?p")
    case True
    have vm: "float_real ?xm = real ?m"
      by (rule rounds_to_exact[OF rm refl m True p])
    show ?thesis
      by (rule rounds_to_ceiling[OF z(2)[unfolded vm] n(1,2) m p])
  next
    case False
    then have "(2::nat) ^ ?p \<le> ?m" by simp
    then have mge: "(2::real) ^ ?p \<le> real ?m"
      by (metis of_nat_le_iff of_nat_numeral of_nat_power)
    have xmge: "2 ^ ?p \<le> float_real ?xm" by (rule rounds_to_ge[OF rm mge p])
    have xmpos: "0 < float_real ?xm" using xmge by (smt (verit) zero_less_power)
    have q1: "0 < real ?n / float_real ?xm" using npos xmpos by simp
    have "real ?n < float_real ?xm" using nlt xmge by (rule less_le_trans)
    then have q2: "real ?n / float_real ?xm < 1" using xmpos by simp
    have "0 < float_real z" "float_real z \<le> 1"
      using rounds_to_unit[OF z(2) q1 q2 p] by simp_all
    then have a: "\<lceil>float_real z\<rceil> = 1" by (intro ceiling_unique) simp_all
    have "real ?n < real ?m" using nlt mge by (rule less_le_trans)
    then have "real ?n / real ?m < 1" using mpos by simp
    then have "\<lceil>real ?n / real ?m\<rceil> = 1" using xpos by (intro ceiling_unique) simp_all
    then show ?thesis using a by simp
  qed
  have cpos: "0 < \<lceil>real ?n / real ?m\<rceil>"
    using xpos less_ceiling_iff[of 0 "real ?n / real ?m"] by simp
  have C1: "1 \<le> C" unfolding C_def using cpos by linarith
  have Cint: "int C = \<lceil>real ?n / real ?m\<rceil>" unfolding C_def using cpos by simp
  have "real ?n / real ?m \<le> real ?n" using m npos by (simp add: field_simps)
  then have "\<lceil>real ?n / real ?m\<rceil> \<le> int ?n" by (simp add: ceiling_le_iff)
  then have Cn: "C \<le> ?n" using Cint by simp
  let ?cf = "float_ceil z"
  have vc: "float_real ?cf = real C"
    unfolding float_ceil_real(1) cz Cint[symmetric] by simp
  have s: "size_t_of_float pf ?cf = Some C"
    using size_t_of_float_integer[OF float_ceil_real(2) vc] Cn n(3) by simp
  have Cpos: "0 < C" using C1 by simp
  have "rounds_to ?p (real C) (float_real (float_of_size_t pf C))"
    using float_of_size_t_rounds(1)[OF Cpos p] .
  then have "float_real (float_of_size_t pf C) = real C"
    by (rule rounds_to_exact[OF _ refl C1 _ p]) (use Cn n(2) in simp)
  then have "\<not> float_value_less (float_of_size_t pf C) ?cf"
    unfolding float_value_less_real vc by simp
  then have l: "GetAvgLength_loop pf C ?cf = Some C"
    by (subst GetAvgLength_loop.simps) simp
  show ?thesis
    unfolding C_def[symmetric] using z(1) s l by blast
qed

lemma GetAvgLength_returns:
  assumes p: "1 \<le> float_digits pf"
    and n: "1 \<le> cInstances" "cInstances < 2 ^ float_digits pf" "cInstances < 2 ^ size_bits pf"
    and m: "1 \<le> cMaximumBins"
  shows "\<exists>avgLength. GetAvgLength pf cInstances cMaximumBins cMinimumInstancesPerBin
             = Some avgLength \<and> cMinimumInstancesPerBin \<le> avgLength"
proof -
  from GetAvgLength_ceiling[OF p n m] obtain z where
    "float_divide pf (float_of_size_t pf cInstances) (float_of_size_t pf cMaximumBins) = Some z"
    "size_t_of_float pf (float_ceil z) = Some (nat \<lceil>real cInstances / real cMaximumBins\<rceil>)"
    "GetAvgLength_loop pf (nat \<lceil>real cInstances / real cMaximumBins\<rceil>) (float_ceil z)
       = Some (nat \<lceil>real cInstances / real cMaximumBins\<rceil>)"
    by blast
  then show ?thesis
    unfolding GetAvgLength_def by simp
qed

text \<open>
  C7, as amended. With a floating-point format of at least one significand bit, for
  every \<^verbatim>\<open>cInstances\<close> from 1 that is below \<open>2 ^ float_digits\<close> (below \<open>2 ^ 53\<close> for
  doubles) and fits \<^verbatim>\<open>size_t\<close>, every \<^verbatim>\<open>cMaximumBins\<close> from 1 and every
  \<^verbatim>\<open>cMinimumInstancesPerBin\<close>, \<^verbatim>\<open>GetAvgLength\<close> returns, and returns the greater of
  \<^verbatim>\<open>cMinimumInstancesPerBin\<close> and the exact integer ceiling of
  \<^verbatim>\<open>cInstances / cMaximumBins\<close>. The loop compares with the floating-point ceiling, not
  with the exact one, and does not run there.
\<close>

theorem GetAvgLength_spec:
  assumes p: "1 \<le> float_digits pf"
    and n: "1 \<le> cInstances" "cInstances < 2 ^ float_digits pf" "cInstances < 2 ^ size_bits pf"
    and m: "1 \<le> cMaximumBins"
  shows "GetAvgLength pf cInstances cMaximumBins cMinimumInstancesPerBin
           = Some (max cMinimumInstancesPerBin
                       (nat \<lceil>real cInstances / real cMaximumBins\<rceil>))"
proof -
  from GetAvgLength_ceiling[OF p n m] obtain z where
    "float_divide pf (float_of_size_t pf cInstances) (float_of_size_t pf cMaximumBins) = Some z"
    "size_t_of_float pf (float_ceil z) = Some (nat \<lceil>real cInstances / real cMaximumBins\<rceil>)"
    "GetAvgLength_loop pf (nat \<lceil>real cInstances / real cMaximumBins\<rceil>) (float_ceil z)
       = Some (nat \<lceil>real cInstances / real cMaximumBins\<rceil>)"
    by blast
  then show ?thesis
    unfolding GetAvgLength_def by (simp add: max_def)
qed

theorem GetAvgLength_counterexample:
  "GetAvgLength platform64 9007199254740993 2 1 = Some 4503599627370496
   \<and> max 1 (nat \<lceil>real 9007199254740993 / real 2\<rceil>) = 4503599627370497"
proof
  show "GetAvgLength platform64 9007199254740993 2 1 = Some 4503599627370496"
    by code_simp
  have "\<lceil>real 9007199254740993 / real 2\<rceil> = 4503599627370497"
    by (intro ceiling_unique) simp_all
  then show "max 1 (nat \<lceil>real 9007199254740993 / real 2\<rceil>) = 4503599627370497"
    by simp
qed

theorem GetAvgLength_spec_witness:
  "GetAvgLength platform64 100 3 1 = Some 34 \<and> GetAvgLength platform64 100 3 50 = Some 50"
proof -
  have c: "\<lceil>real 100 / real 3\<rceil> = 34" by (intro ceiling_unique) simp_all
  have "GetAvgLength platform64 100 3 1 = Some (max 1 (nat \<lceil>real 100 / real 3\<rceil>))"
    by (rule GetAvgLength_spec) (simp_all add: platform64_def)
  moreover have "GetAvgLength platform64 100 3 50 = Some (max 50 (nat \<lceil>real 100 / real 3\<rceil>))"
    by (rule GetAvgLength_spec) (simp_all add: platform64_def)
  ultimately show ?thesis unfolding c by simp
qed

section \<open>GenerateQuantileCutPoints returns\<close>

text \<open>
  \<^verbatim>\<open>std::sort\<close> on numbers is the sorting function of the library.
\<close>

lemma std_sort_insert_Num:
  "std_sort_insert float_less (Num x) (map Num ys) = map Num (insort x ys)"
  by (induction ys) auto

lemma std_sort_Num: "std_sort (map Num ys) = map Num (sort ys)"
proof (induction ys)
  case Nil
  then show ?case by (simp add: std_sort_def std_sort_by_def)
next
  case (Cons y ys)
  have "std_sort (map Num (y # ys)) = std_sort_insert float_less (Num y) (std_sort (map Num ys))"
    by (simp add: std_sort_def std_sort_by_def)
  then show ?case by (simp add: Cons std_sort_insert_Num)
qed

lemma not_isnan_map_Num:
  "\<forall>v \<in> set xs. \<not> isnan v \<Longrightarrow> \<exists>ys. xs = map Num ys"
proof (induction xs)
  case Nil
  then show ?case by simp
next
  case (Cons x xs)
  then obtain ys where "xs = map Num ys" by auto
  moreover obtain y where "x = Num y" using Cons.prems by (cases x) auto
  ultimately have "x # xs = map Num (y # ys)" by simp
  then show ?case by (rule exI)
qed

text \<open>
  The two scans agree: the second one writes a record exactly where the first one
  counted one, so the table never overflows, and after the range that ends the buffer
  it holds \<^verbatim>\<open>cSplittingRanges\<close> records.
\<close>

lemma float_ne_eq: "\<not> float_ne a b \<Longrightarrow> a = b"
  by (cases a; cases b) auto

lemma float_ne_refl: "\<not> isnan a \<Longrightarrow> \<not> float_ne a a"
  by (cases a) auto

lemma check_for_split_point_False:
  "pLast < length buf \<Longrightarrow> (\<forall>j. p \<le> j \<and> j \<le> pLast \<longrightarrow> \<not> float_ne cv (buf ! j))
     \<Longrightarrow> check_for_split_point buf cv p pLast = Some False"
proof (induction buf cv p pLast rule: check_for_split_point.induct)
  case (1 buf cv p pLast)
  show ?case
  proof (cases "p \<le> pLast")
    case True
    then have a: "p < length buf" using 1(2) by simp
    have b: "\<not> float_ne cv (buf ! p)" using 1(3) True by simp
    have "check_for_split_point buf cv (p + 1) pLast = Some False"
      using 1(1)[OF True a b 1(2)] 1(3) by simp
    then show ?thesis using True a b by (subst check_for_split_point.simps) simp
  next
    case False
    then show ?thesis by (subst check_for_split_point.simps) simp
  qed
qed

lemma check_for_split_point_returns:
  "pLast < length buf \<Longrightarrow> \<exists>b. check_for_split_point buf cv p pLast = Some b"
proof (induction buf cv p pLast rule: check_for_split_point.induct)
  case (1 buf cv p pLast)
  show ?case
  proof (cases "p \<le> pLast")
    case True
    then have a: "p < length buf" using 1(2) by simp
    show ?thesis
    proof (cases "float_ne cv (buf ! p)")
      case ne: True
      then show ?thesis using True a by (subst check_for_split_point.simps) auto
    next
      case eq: False
      have "\<exists>b. check_for_split_point buf cv (p + 1) pLast = Some b"
        using 1(1)[OF True a eq 1(2)] .
      then show ?thesis using True a eq by (subst check_for_split_point.simps) simp
    qed
  next
    case False
    then show ?thesis by (subst check_for_split_point.simps) auto
  qed
qed

lemma count_splitting_ranges_returns:
  "pScan \<le> E \<Longrightarrow> E \<le> length buf \<Longrightarrow>
   \<exists>s c. count_splitting_ranges buf E A M rv s0 e0 pScan c0 = Some (s, c)
     \<and> c0 \<le> c \<and> ((s = s0 \<and> c = c0) \<or> pScan \<le> s)"
proof (induction buf E A M rv s0 e0 pScan c0 rule: count_splitting_ranges.induct)
  case (1 buf E A M rv s0 e0 pScan c0)
  show ?case
  proof (cases "E = pScan")
    case True
    then show ?thesis by (subst count_splitting_ranges.simps) simp
  next
    case False
    then have ne: "E \<noteq> pScan" and lt: "pScan < length buf" and le: "pScan + 1 \<le> E"
      using 1(4,5) by simp_all
    define val where "val = buf ! pScan"
    show ?thesis
    proof (cases "float_ne val rv")
      case diff: True
      show ?thesis
      proof (cases "A \<le> pScan - e0")
        case long: True
        define c1 where "c1 = (if 0 \<noteq> s0 \<or> M \<le> e0 - s0 then c0 + 1 else c0)"
        have "\<exists>s c. count_splitting_ranges buf E A M val pScan pScan (pScan + 1) c1 = Some (s, c)
            \<and> c1 \<le> c \<and> ((s = pScan \<and> c = c1) \<or> pScan + 1 \<le> s)"
          unfolding c1_def val_def
          using 1(1)[OF ne lt refl diff[unfolded val_def] refl long le 1(5)] .
        then obtain s c where r: "count_splitting_ranges buf E A M val pScan pScan (pScan + 1) c1 = Some (s, c)"
          "c1 \<le> c" "(s = pScan \<and> c = c1) \<or> pScan + 1 \<le> s" by blast
        have "count_splitting_ranges buf E A M rv s0 e0 pScan c0 = Some (s, c)"
          using ne lt diff long r(1) unfolding val_def c1_def
          by (subst count_splitting_ranges.simps) (simp add: Let_def)
        moreover have "c0 \<le> c" using r(2) unfolding c1_def by (simp split: if_splits)
        moreover have "pScan \<le> s" using r(3) by auto
        ultimately show ?thesis by blast
      next
        case short: False
        have "\<exists>s c. count_splitting_ranges buf E A M val s0 pScan (pScan + 1) c0 = Some (s, c)
            \<and> c0 \<le> c \<and> ((s = s0 \<and> c = c0) \<or> pScan + 1 \<le> s)"
          unfolding val_def
          using 1(2)[OF ne lt refl diff[unfolded val_def] refl short le 1(5)] .
        then obtain s c where r: "count_splitting_ranges buf E A M val s0 pScan (pScan + 1) c0 = Some (s, c)"
          "c0 \<le> c" "(s = s0 \<and> c = c0) \<or> pScan + 1 \<le> s" by blast
        have "count_splitting_ranges buf E A M rv s0 e0 pScan c0 = Some (s, c)"
          using ne lt diff short r(1) unfolding val_def
          by (subst count_splitting_ranges.simps) (simp add: Let_def)
        moreover have "(s = s0 \<and> c = c0) \<or> pScan \<le> s" using r(3) by auto
        ultimately show ?thesis using r(2) by blast
      qed
    next
      case same: False
      have "\<exists>s c. count_splitting_ranges buf E A M rv s0 e0 (pScan + 1) c0 = Some (s, c)
          \<and> c0 \<le> c \<and> ((s = s0 \<and> c = c0) \<or> pScan + 1 \<le> s)"
        using 1(3)[OF ne lt refl same[unfolded val_def] le 1(5)] .
      then obtain s c where r: "count_splitting_ranges buf E A M rv s0 e0 (pScan + 1) c0 = Some (s, c)"
        "c0 \<le> c" "(s = s0 \<and> c = c0) \<or> pScan + 1 \<le> s" by blast
      have "count_splitting_ranges buf E A M rv s0 e0 pScan c0 = Some (s, c)"
        using ne lt same r(1) unfolding val_def
        by (subst count_splitting_ranges.simps) (simp add: Let_def)
      moreover have "(s = s0 \<and> c = c0) \<or> pScan \<le> s" using r(3) by auto
      ultimately show ?thesis using r(2) by blast
    qed
  qed
qed

lemma count_splitting_ranges_mono:
  assumes "count_splitting_ranges buf E A M rv s0 e0 pScan c0 = Some (s, c)"
    and "pScan \<le> E" and "E \<le> length buf"
  shows "c0 \<le> c" and "(s = s0 \<and> c = c0) \<or> pScan \<le> s"
  using count_splitting_ranges_returns[OF assms(2,3), of A M rv s0 e0 c0] assms(1) by auto

lemma fill_splitting_ranges_returns:
  "count_splitting_ranges buf E A M rv s0 e0 pScan c0 = Some (s, c) \<Longrightarrow>
   pScan \<le> E \<Longrightarrow> E \<le> length buf \<Longrightarrow> length T + (c - c0) \<le> C \<Longrightarrow> s0 \<le> e0 \<Longrightarrow>
   e0 < pScan \<Longrightarrow> (\<forall>j. e0 \<le> j \<and> j < pScan \<longrightarrow> buf ! j = rv) \<Longrightarrow>
   \<exists>e T' q'. fill_splitting_ranges buf E A M C rv s0 e0 pScan T q = Some (s, e, T', q')
      \<and> length T' = length T + (c - c0) \<and> s \<le> e \<and> e < E
      \<and> (\<forall>j. e \<le> j \<and> j < E \<longrightarrow> buf ! j = buf ! e)"
proof (induction buf E A M C rv s0 e0 pScan T q arbitrary: c0 rule: fill_splitting_ranges.induct)
  case (1 buf E A M C rv s0 e0 pScan T q)
  note cnt = 1(5) and le = 1(6) and len = 1(7) and cap = 1(8) and se = 1(9) and ep = 1(10)
    and run = 1(11)
  show ?case
  proof (cases "E = pScan")
    case True
    have sc: "s = s0" "c = c0"
      using cnt True by (subst (asm) count_splitting_ranges.simps, simp)+
    have f: "fill_splitting_ranges buf E A M C rv s0 e0 pScan T q = Some (s, e0, T, q)"
      unfolding sc using True by (subst fill_splitting_ranges.simps) simp
    have "buf ! e0 = rv" using run ep by blast
    then have eq: "\<forall>j. e0 \<le> j \<and> j < E \<longrightarrow> buf ! j = buf ! e0"
      using run unfolding True by blast
    have l: "length T = length T + (c - c0)" unfolding sc by simp
    have a: "s \<le> e0" "e0 < E" using se ep unfolding sc True by blast+
    show ?thesis
      by (intro exI conjI) (rule f, rule l, rule a(1), rule a(2), rule eq)
  next
    case False
    then have ne: "E \<noteq> pScan" and lt: "pScan < length buf" and le1: "pScan + 1 \<le> E"
      using le len by simp_all
    define val where "val = buf ! pScan"
    have "\<And>j. pScan \<le> j \<Longrightarrow> j < pScan + 1 \<Longrightarrow> j = pScan" by arith
    then have run1: "\<forall>j. pScan \<le> j \<and> j < pScan + 1 \<longrightarrow> buf ! j = val"
      unfolding val_def by blast
    show ?thesis
    proof (cases "float_ne val rv")
      case diff: True
      show ?thesis
      proof (cases "A \<le> pScan - e0")
        case long: True
        show ?thesis
        proof (cases "0 \<noteq> s0 \<or> M \<le> e0 - s0")
          case cond: True
          have cnt1: "count_splitting_ranges buf E A M val pScan pScan (pScan + 1) (c0 + 1) = Some (s, c)"
            using cnt ne lt diff long cond unfolding val_def
            by (subst (asm) count_splitting_ranges.simps) (simp add: Let_def)
          have c1: "c0 + 1 \<le> c" by (rule count_splitting_ranges_mono(1)[OF cnt1 le1 len])
          then have room: "length T < C" using cap by simp
          define r where "r = new_SplittingRange s0 (e0 - s0) q (pScan - e0)"
          have w: "write_SplittingRange C T r = Some (T @ [r])"
            using room by (simp add: write_SplittingRange_def)
          have cap1: "length (T @ [r]) + (c - (c0 + 1)) \<le> C" using cap c1 by simp
          have "\<exists>e T' q'. fill_splitting_ranges buf E A M C val pScan pScan (pScan + 1) (T @ [r])
                  (pScan - e0) = Some (s, e, T', q')
              \<and> length T' = length (T @ [r]) + (c - (c0 + 1)) \<and> s \<le> e \<and> e < E
              \<and> (\<forall>j. e \<le> j \<and> j < E \<longrightarrow> buf ! j = buf ! e)"
            using 1(1)[OF ne lt refl diff[unfolded val_def] refl long cond w[unfolded r_def],
                folded val_def r_def, OF cnt1 le1 len cap1 _ _ run1]
            by simp
          then obtain e T' q' where f:
            "fill_splitting_ranges buf E A M C val pScan pScan (pScan + 1) (T @ [r]) (pScan - e0)
               = Some (s, e, T', q')"
            "length T' = length (T @ [r]) + (c - (c0 + 1))" "s \<le> e" "e < E"
            "\<forall>j. e \<le> j \<and> j < E \<longrightarrow> buf ! j = buf ! e" by blast
          have "fill_splitting_ranges buf E A M C rv s0 e0 pScan T q = Some (s, e, T', q')"
            using ne lt diff long cond w f(1) unfolding val_def r_def
            by (subst fill_splitting_ranges.simps) (simp add: Let_def)
          moreover have "length T' = length T + (c - c0)" using f(2) c1 by simp
          ultimately show ?thesis using f(3,4,5) by blast
        next
          case ncond: False
          have s00: "s0 = 0" and nm: "\<not> M \<le> e0" using ncond by auto
          have cnt1: "count_splitting_ranges buf E A M val pScan pScan (pScan + 1) c0 = Some (s, c)"
            using cnt ne lt diff long nm unfolding val_def s00
            by (subst (asm) count_splitting_ranges.simps) (simp add: Let_def)
          have "\<exists>e T' q'. fill_splitting_ranges buf E A M C val pScan pScan (pScan + 1) T q
                  = Some (s, e, T', q')
              \<and> length T' = length T + (c - c0) \<and> s \<le> e \<and> e < E
              \<and> (\<forall>j. e \<le> j \<and> j < E \<longrightarrow> buf ! j = buf ! e)"
            using 1(2)[OF ne lt refl diff[unfolded val_def] refl long ncond,
                folded val_def, OF cnt1 le1 len cap _ _ run1]
            by simp
          then obtain e T' q' where f:
            "fill_splitting_ranges buf E A M C val pScan pScan (pScan + 1) T q = Some (s, e, T', q')"
            "length T' = length T + (c - c0)" "s \<le> e" "e < E"
            "\<forall>j. e \<le> j \<and> j < E \<longrightarrow> buf ! j = buf ! e" by blast
          have "fill_splitting_ranges buf E A M C rv s0 e0 pScan T q = Some (s, e, T', q')"
            using ne lt diff long nm f(1) unfolding val_def s00
            by (subst fill_splitting_ranges.simps) (simp add: Let_def)
          then show ?thesis using f(2,3,4,5) by blast
        qed
      next
        case short: False
        have cnt1: "count_splitting_ranges buf E A M val s0 pScan (pScan + 1) c0 = Some (s, c)"
          using cnt ne lt diff short unfolding val_def
          by (subst (asm) count_splitting_ranges.simps) (simp add: Let_def)
        have sp: "s0 \<le> pScan" using se ep by simp
        have "\<exists>e T' q'. fill_splitting_ranges buf E A M C val s0 pScan (pScan + 1) T q
                = Some (s, e, T', q')
            \<and> length T' = length T + (c - c0) \<and> s \<le> e \<and> e < E
            \<and> (\<forall>j. e \<le> j \<and> j < E \<longrightarrow> buf ! j = buf ! e)"
          using 1(3)[OF ne lt refl diff[unfolded val_def] refl short,
              folded val_def, OF cnt1 le1 len cap sp _ run1]
          by simp
        then obtain e T' q' where f:
          "fill_splitting_ranges buf E A M C val s0 pScan (pScan + 1) T q = Some (s, e, T', q')"
          "length T' = length T + (c - c0)" "s \<le> e" "e < E"
          "\<forall>j. e \<le> j \<and> j < E \<longrightarrow> buf ! j = buf ! e" by blast
        have "fill_splitting_ranges buf E A M C rv s0 e0 pScan T q = Some (s, e, T', q')"
          using ne lt diff short f(1) unfolding val_def
          by (subst fill_splitting_ranges.simps) (simp add: Let_def)
        then show ?thesis using f(2,3,4,5) by blast
      qed
    next
      case same: False
      have cnt1: "count_splitting_ranges buf E A M rv s0 e0 (pScan + 1) c0 = Some (s, c)"
        using cnt ne lt same unfolding val_def
        by (subst (asm) count_splitting_ranges.simps) (simp add: Let_def)
      have "val = rv" using same by (rule float_ne_eq)
      then have run2: "\<forall>j. e0 \<le> j \<and> j < pScan + 1 \<longrightarrow> buf ! j = rv"
        using run unfolding val_def by (auto simp: less_Suc_eq)
      have ep1: "e0 < pScan + 1" using ep by simp
      have "\<exists>e T' q'. fill_splitting_ranges buf E A M C rv s0 e0 (pScan + 1) T q
              = Some (s, e, T', q')
          \<and> length T' = length T + (c - c0) \<and> s \<le> e \<and> e < E
          \<and> (\<forall>j. e \<le> j \<and> j < E \<longrightarrow> buf ! j = buf ! e)"
        using 1(4)[OF ne lt refl same[unfolded val_def] cnt1 le1 len cap se ep1 run2] .
      then obtain e T' q' where f:
        "fill_splitting_ranges buf E A M C rv s0 e0 (pScan + 1) T q = Some (s, e, T', q')"
        "length T' = length T + (c - c0)" "s \<le> e" "e < E"
        "\<forall>j. e \<le> j \<and> j < E \<longrightarrow> buf ! j = buf ! e" by blast
      have "fill_splitting_ranges buf E A M C rv s0 e0 pScan T q = Some (s, e, T', q')"
        using ne lt same f(1) unfolding val_def
        by (subst fill_splitting_ranges.simps) (simp add: Let_def)
      then show ?thesis using f(2,3,4,5) by blast
    qed
  qed
qed

lemma splitting_ranges_or_done_returns:
  assumes "E \<le> length buf" and "1 \<le> M" and "M \<le> E"
  shows "\<exists>r. splitting_ranges_or_done buf E M s c0 = Some r"
proof (cases "0 = s")
  case True
  have a: "0 < M \<and> M \<le> E \<and> M - 1 < length buf" using assms by simp
  have "E - M < length buf" using assms by simp
  then obtain b where "check_for_split_point buf (buf ! (M - 1)) M (E - M) = Some b"
    using check_for_split_point_returns by blast
  then show ?thesis using True a by (simp add: splitting_ranges_or_done_def)
next
  case False
  then show ?thesis by (simp add: splitting_ranges_or_done_def Let_def)
qed

lemma splitting_ranges_or_done_first:
  assumes "splitting_ranges_or_done buf E M 0 c0 = Some (Some C)"
  shows "C = 1" and "check_for_split_point buf (buf ! (M - 1)) M (E - M) = Some True"
  using assms
  by (auto simp: splitting_ranges_or_done_def split: if_splits option.splits)

lemma splitting_ranges_or_done_later:
  assumes "splitting_ranges_or_done buf E M s c0 = Some (Some C)" and "1 \<le> s"
  shows "(M \<le> E - s \<and> C = c0 + 1) \<or> (\<not> M \<le> E - s \<and> c0 \<noteq> 0 \<and> C = c0)"
  using assms
  by (auto simp: splitting_ranges_or_done_def Let_def split: if_splits)

lemma build_splitting_ranges_returns:
  assumes E: "E \<le> length buf" and M: "1 \<le> M" "M \<le> A" "M \<le> E"
    and nn: "\<forall>j. j < E \<longrightarrow> \<not> isnan (buf ! j)"
    and cnt: "count_splitting_ranges buf E A M (buf ! 0) 0 0 1 0 = Some (s, c0)"
    and srd: "splitting_ranges_or_done buf E M s c0 = Some (Some C)"
  shows "\<exists>T. build_splitting_ranges buf E A M C = Some T"
proof -
  have E1: "1 \<le> E" using M by simp
  have pos: "0 < length buf" using E E1 by (rule_tac less_le_trans[of 0 E]) simp_all
  have sc: "(s = 0 \<and> c0 = 0) \<or> 1 \<le> s"
    using count_splitting_ranges_mono(2)[OF cnt E1 E] by simp
  have capC: "length ([] :: SplittingRange list) + (c0 - 0) \<le> C"
  proof (cases "s = 0")
    case True
    then show ?thesis using sc by simp
  next
    case False
    then have "1 \<le> s" by simp
    from splitting_ranges_or_done_later[OF srd this] show ?thesis by auto
  qed
  have run0: "\<forall>j. 0 \<le> j \<and> j < 1 \<longrightarrow> buf ! j = buf ! 0" by simp
  have lenT: "length ([] :: SplittingRange list) + (c0 - 0) = c0" by simp
  from fill_splitting_ranges_returns[where T = "[]" and q = 0 and C = C,
      OF cnt E1 E capC le_refl zero_less_one run0, unfolded lenT]
  obtain e T q where f: "fill_splitting_ranges buf E A M C (buf ! 0) 0 0 1 [] 0 = Some (s, e, T, q)"
    and lT: "length T = c0" and se: "s \<le> e" and eE: "e < E"
    and run: "\<forall>j. e \<le> j \<and> j < E \<longrightarrow> buf ! j = buf ! e"
    by blast
  define r1 where "r1 = new_SplittingRange s (e - s) q (E - e)"
  define r2 where "r2 = new_SplittingRange s (E - s) q (E - e)"
  define T2 where "T2 =
    (if A \<le> E - e then
       (if 0 \<noteq> s \<or> M \<le> e - s then write_SplittingRange C T r1 else Some T)
     else (if length T \<noteq> C then write_SplittingRange C T r2 else Some T))"
  have T2: "\<exists>T'. T2 = Some T' \<and> length T' = C \<and> 0 < C"
  proof (cases "s = 0")
    case s0: True
    then have c00: "c0 = 0" using sc by simp
    have C1: "C = 1"
      and chk: "check_for_split_point buf (buf ! (M - 1)) M (E - M) = Some True"
      using splitting_ranges_or_done_first[OF srd[unfolded s0]] by simp_all
    have T0: "T = []" using lT c00 by simp
    show ?thesis
    proof (cases "A \<le> E - e")
      case long: True
      show ?thesis
      proof (cases "M \<le> e")
        case True
        then show ?thesis
          unfolding T2_def using long s0 C1 T0 by (simp add: write_SplittingRange_def)
      next
        case False
        then have eM: "e \<le> M - 1" by simp
        have M1: "M - 1 < E" using M by simp
        have x: "buf ! (M - 1) = buf ! e" using run eM M1 by blast
        have nx: "\<not> isnan (buf ! e)" using nn eE by blast
        have "\<forall>j. M \<le> j \<and> j \<le> E - M \<longrightarrow> \<not> float_ne (buf ! (M - 1)) (buf ! j)"
        proof (intro allI impI)
          fix j assume j: "M \<le> j \<and> j \<le> E - M"
          then have "e \<le> j \<and> j < E" using eM M by auto
          then have "buf ! j = buf ! e" using run by blast
          then show "\<not> float_ne (buf ! (M - 1)) (buf ! j)"
            unfolding x using float_ne_refl[OF nx] by simp
        qed
        moreover have "E - M < length buf" using E M by simp
        ultimately have "check_for_split_point buf (buf ! (M - 1)) M (E - M) = Some False"
          by (intro check_for_split_point_False)
        then show ?thesis using chk by simp
      qed
    next
      case short: False
      then show ?thesis
        unfolding T2_def using C1 T0 by (simp add: write_SplittingRange_def)
    qed
  next
    case False
    then have s1: "1 \<le> s" by simp
    note alt = splitting_ranges_or_done_later[OF srd s1]
    show ?thesis
    proof (cases "A \<le> E - e")
      case long: True
      have "M \<le> E - s" using M(2) long se by simp
      then have "C = c0 + 1" using alt by simp
      then show ?thesis
        unfolding T2_def using long False lT by (simp add: write_SplittingRange_def)
    next
      case short: False
      show ?thesis
      proof (cases "length T = C")
        case True
        then have "0 < C" using alt lT by auto
        then show ?thesis unfolding T2_def using short True by simp
      next
        case ne: False
        then have "C = c0 + 1" using alt lT by auto
        then show ?thesis
          unfolding T2_def using short ne lT by (simp add: write_SplittingRange_def)
      qed
    qed
  qed
  then obtain T' where T': "T2 = Some T'" "length T' = C" "0 < C" by blast
  have "C - 1 < length T'" using T'(2,3) by simp
  then show ?thesis
    unfolding build_splitting_ranges_def
    using pos T'(3) T'(1)[unfolded T2_def r1_def r2_def]
    by (simp add: f Let_def del: One_nat_def)
qed

lemma continue_working_returns:
  assumes "build_splitting_ranges (mem_singleFeatureValues mem) E A M C = Some T"
  shows "\<exists>st mem'. continue_working pf env randomSeed mem E A M C = Some (st, mem')"
  using assms
  by (simp add: continue_working_def split: RandomStream_construction.splits)

lemma GenerateQuantileCutPoints_ranges_returns:
  assumes gcb: "GetCountBinsMax pf bMissing countMaximumBins = Some m"
    and gal: "GetAvgLength pf E m M = Some A" and MA: "M \<le> A"
    and E: "E \<le> length (mem_singleFeatureValues mem)" and M: "1 \<le> M" "M \<le> E"
    and nn: "\<forall>j. j < E \<longrightarrow> \<not> isnan (mem_singleFeatureValues mem ! j)"
  shows "\<exists>st mem'. GenerateQuantileCutPoints_ranges pf env randomSeed mem E bMissing
           countMaximumBins M = Some (st, mem')"
proof -
  let ?buf = "mem_singleFeatureValues mem"
  have E1: "1 \<le> E" using M by simp
  have pos: "0 < length ?buf" using E E1 by (rule_tac less_le_trans[of 0 E]) simp_all
  obtain s c0 where cnt: "count_splitting_ranges ?buf E A M (?buf ! 0) 0 0 1 0 = Some (s, c0)"
    using count_splitting_ranges_returns[OF E1 E] by blast
  obtain r where srd: "splitting_ranges_or_done ?buf E M s c0 = Some r"
    using splitting_ranges_or_done_returns[OF E M] by blast
  show ?thesis
  proof (cases r)
    case None
    then show ?thesis
      unfolding GenerateQuantileCutPoints_ranges_def
      using pos srd by (simp add: gcb gal cnt Let_def del: One_nat_def)
  next
    case (Some C)
    obtain T where "build_splitting_ranges ?buf E A M C = Some T"
      using build_splitting_ranges_returns[OF E M(1) MA M(2) nn cnt srd[unfolded Some]] by blast
    from continue_working_returns[OF this]
    obtain st mem' where "continue_working pf env randomSeed mem E A M C = Some (st, mem')"
      by blast
    then show ?thesis
      unfolding GenerateQuantileCutPoints_ranges_def
      using pos srd Some by (simp add: gcb gal cnt Let_def del: One_nat_def)
  qed
qed

lemma length_std_sort: "length (std_sort xs) = length xs"
proof -
  have "size (mset (std_sort xs)) = size (mset xs)"
    unfolding std_sort_def by (simp only: mset_std_sort_by)
  then show ?thesis by (simp only: size_mset)
qed

lemma set_std_sort: "set (std_sort xs) = set xs"
proof -
  have "set_mset (mset (std_sort xs)) = set_mset (mset xs)"
    unfolding std_sort_def by (simp only: mset_std_sort_by)
  then show ?thesis by (simp only: set_mset_mset)
qed

text \<open>
  \<^verbatim>\<open>GenerateQuantileCutPoints\<close> returns, with defined behaviour, on every call whose
  buffer holds \<^verbatim>\<open>countInstances\<close> values, when \<^verbatim>\<open>size_t\<close> has at least 5 bits,
  \<^verbatim>\<open>countInstances\<close> is below \<open>2 ^ float_digits\<close>, and twice
  \<^verbatim>\<open>countMinimumInstancesPerBin\<close> fits \<^verbatim>\<open>size_t\<close>: whatever the values, the seed, the
  allocator and the random stream.
\<close>

lemma GenerateQuantileCutPoints_returns:
  assumes w: "5 \<le> size_bits pf" and p: "1 \<le> float_digits pf"
    and len: "nat countInstances \<le> length (mem_singleFeatureValues mem)"
    and n: "countInstances < 2 ^ float_digits pf"
    and cm: "countMinimumInstancesPerBin < 2 ^ (size_bits pf - 1)"
  shows "\<exists>st mem'. GenerateQuantileCutPoints pf env randomSeed countInstances countMaximumBins
           countMinimumInstancesPerBin mem = Some (st, mem')"
proof (cases "IsNumberConvertable pf countInstances \<and> IsNumberConvertable pf countMaximumBins
    \<and> IsNumberConvertable pf countMinimumInstancesPerBin")
  case False
  then show ?thesis unfolding GenerateQuantileCutPoints_def by auto
next
  case True
  then have conv: "IsNumberConvertable pf countInstances" "IsNumberConvertable pf countMaximumBins"
    "IsNumberConvertable pf countMinimumInstancesPerBin" by simp_all
  let ?n = "nat countInstances"
  let ?buf = "mem_singleFeatureValues mem"
  have cast: "static_cast_size_t pf countInstances = ?n"
    by (rule static_cast_size_t_id[OF conv(1)])
  show ?thesis
  proof (cases "?n = 0")
    case True
    then show ?thesis
      unfolding GenerateQuantileCutPoints_def by (simp add: conv cast Let_def)
  next
    case False
    then have n1: "1 \<le> ?n" by simp
    from RemoveMissingValues_correct[OF n1 len]
    obtain buf' n' where rm: "RemoveMissingValues ?buf ?n = Some (buf', n')"
      and lb: "length buf' = length ?buf"
      and tk: "take n' buf' = filter (\<lambda>v. \<not> isnan v) (take ?n ?buf)"
      and n'n: "n' \<le> ?n"
      by blast
    define sorted where "sorted = std_sort (take n' buf') @ drop n' buf'"
    define M where "M = (if countMinimumInstancesPerBin \<le> 0 then 1
                         else static_cast_size_t pf countMinimumInstancesPerBin)"
    define mem2 where "mem2 = mem\<lparr>mem_isMissing := (if ?n \<noteq> n' then EBM_TRUE else EBM_FALSE),
       mem_singleFeatureValues := sorted,
       mem_minValue := sorted ! 0, mem_maxValue := sorted ! (n' - 1)\<rparr>"
    show ?thesis
    proof (cases "n' = 0 \<or> countMaximumBins \<le> 1 \<or> n' < (M * 2) mod 2 ^ size_bits pf")
      case True
      then show ?thesis
        unfolding GenerateQuantileCutPoints_def M_def
        using False by (auto simp add: conv cast rm Let_def)
    next
      case False
      then have n'1: "1 \<le> n'" and lo: "2 \<le> countMaximumBins"
        and enough: "\<not> n' < (M * 2) mod 2 ^ size_bits pf" by simp_all
      have G: "GenerateQuantileCutPoints pf env randomSeed countInstances countMaximumBins
           countMinimumInstancesPerBin mem
         = GenerateQuantileCutPoints_ranges pf env randomSeed mem2 n' (?n \<noteq> n')
             countMaximumBins M"
        unfolding GenerateQuantileCutPoints_def M_def mem2_def sorted_def
        using False \<open>?n \<noteq> 0\<close> unfolding M_def
        by (simp add: conv cast rm Let_def)
      have hi: "countMaximumBins < 2 ^ size_bits pf"
        using conv(2) by (simp add: IsNumberConvertable_def)
      obtain m where gcb: "GetCountBinsMax pf (?n \<noteq> n') countMaximumBins = Some m"
        and m1: "1 \<le> m"
        using GetCountBinsMax_returns[OF w lo hi] by blast
      have "int ?n < 2 ^ float_digits pf" using n n1 by simp
      then have "?n < 2 ^ float_digits pf"
        by (metis of_nat_less_iff of_nat_numeral of_nat_power)
      then have np: "n' < 2 ^ float_digits pf" by (rule le_less_trans[OF n'n])
      have "int ?n < 2 ^ size_bits pf" using conv(1) by (simp add: IsNumberConvertable_def)
      then have "?n < 2 ^ size_bits pf"
        by (metis of_nat_less_iff of_nat_numeral of_nat_power)
      then have nw: "n' < 2 ^ size_bits pf" by (rule le_less_trans[OF n'n])
      obtain avgLength where gal: "GetAvgLength pf n' m M = Some avgLength"
        and MA: "M \<le> avgLength"
        using GetAvgLength_returns[OF p n'1 np nw m1] by blast
      have w1: "size_bits pf = Suc (size_bits pf - 1)" using w by simp
      have M1: "1 \<le> M"
        using conv(3) unfolding M_def
        by (auto simp: static_cast_size_t_id IsNumberConvertable_def)
      have "int M < 2 ^ (size_bits pf - 1)"
      proof (cases "countMinimumInstancesPerBin \<le> 0")
        case True
        have "(1::int) < 2 ^ (size_bits pf - 1)" using w by (simp add: one_less_power)
        then show ?thesis using True unfolding M_def by simp
      next
        case False
        then show ?thesis
          using cm conv(3) unfolding M_def by (simp add: static_cast_size_t_id)
      qed
      then have "M < 2 ^ (size_bits pf - 1)"
        by (metis of_nat_less_iff of_nat_numeral of_nat_power)
      then have "M * 2 < 2 ^ size_bits pf" by (subst w1) simp
      then have "(M * 2) mod 2 ^ size_bits pf = M * 2" by simp
      then have Mn: "M \<le> n'" using enough by simp
      have ls: "length sorted = length buf'"
        unfolding sorted_def using n'n len lb by (simp add: length_std_sort)
      have E: "n' \<le> length (mem_singleFeatureValues mem2)"
        unfolding mem2_def using ls lb n'n len by simp
      have nn: "\<forall>j. j < n' \<longrightarrow> \<not> isnan (mem_singleFeatureValues mem2 ! j)"
      proof (intro allI impI)
        fix j assume j: "j < n'"
        have l: "length (std_sort (take n' buf')) = n'"
          using n'n len lb by (simp add: length_std_sort)
        then have "sorted ! j = std_sort (take n' buf') ! j"
          unfolding sorted_def using j by (simp add: nth_append)
        moreover have "std_sort (take n' buf') ! j \<in> set (std_sort (take n' buf'))"
          using j l by simp
        ultimately have "sorted ! j \<in> set (filter (\<lambda>v. \<not> isnan v) (take ?n ?buf))"
          unfolding set_std_sort tk by simp
        then show "\<not> isnan (mem_singleFeatureValues mem2 ! j)"
          unfolding mem2_def by simp
      qed
      show ?thesis
        unfolding G
        by (rule GenerateQuantileCutPoints_ranges_returns[OF gcb gal MA E M1 Mn nn])
    qed
  qed
qed

end
